theory Spec2Isabelle
  imports Complex_Main "HOL-Library.AList"
begin

section \<open>Data model (types.ts)\<close>

text \<open>
  JavaScript numbers that hold terms, indices, ids and tick counts are integers in every
  use the engine makes of them, so they are \<open>int\<close>. Packet progress and speed are
  multiples of a quarter (1.5 times a slider value in steps of 0.5), which binary floating
  point represents exactly; they are \<open>rat\<close>.

  The fields \<open>x\<close>, \<open>y\<close> of a node (screen coordinates) and the \<open>id\<close> of a packet
  (a random UUID used as a rendering key) are never read by the engine and are left out.
\<close>

datatype NodeState = FOLLOWER | CANDIDATE | LEADER | CRASHED

record LogEntry =
  entry_term :: int
  command :: string

text \<open>
  \<open>nextIndex\<close> and \<open>matchIndex\<close> are \<open>Record<number, number>\<close>: objects keyed by
  node id. They are association lists; a JavaScript object has one value per key, which is
  the side condition \<open>distinct (map fst r)\<close> where a theorem needs it.
\<close>

type_synonym IndexRecord = "(int \<times> int) list"

record RaftNode =
  nid :: int
  state :: NodeState
  currentTerm :: int
  votedFor :: "int option"
  nlog :: "LogEntry list"
  commitIndex :: int
  electionTimeout :: int
  currentTimeoutDuration :: int
  nextIndex :: IndexRecord
  matchIndex :: IndexRecord
  heartbeatTimer :: int

text \<open>
  The payload of a packet is \<open>any\<close> in the source and its shape is fixed by the packet's
  \<open>type\<close>. The tagged union below carries one payload record per \<open>PacketType\<close>; the
  constructor is the \<open>type\<close> field.
\<close>

record RequestVotePayload =
  rv_term :: int
  candidateId :: int
  lastLogIndex :: int
  lastLogTerm :: int

record VoteResponsePayload =
  vr_term :: int
  voteGranted :: bool

record AppendEntriesPayload =
  ae_term :: int
  leaderId :: int
  prevLogIndex :: int
  prevLogTerm :: int
  entries :: "LogEntry list"
  leaderCommit :: int

record AppendResponsePayload =
  ar_term :: int
  success :: bool
  ar_matchIndex :: int

datatype Payload =
    REQUEST_VOTE RequestVotePayload
  | VOTE_RESPONSE VoteResponsePayload
  | APPEND_ENTRIES AppendEntriesPayload
  | APPEND_RESPONSE AppendResponsePayload

record Packet =
  pfrom :: int
  pto :: int
  payload :: Payload
  progress :: rat
  speed :: rat

section \<open>Protocol handlers (utils/raftLogic.ts)\<close>

definition MIN_ELECTION_TIMEOUT :: int where "MIN_ELECTION_TIMEOUT = 150"
definition MAX_ELECTION_TIMEOUT :: int where "MAX_ELECTION_TIMEOUT = 300"
definition HEARTBEAT_INTERVAL :: int where "HEARTBEAT_INTERVAL = 50"
definition PACKET_SPEED :: rat where "PACKET_SPEED = 3 / 2"

text \<open>
  \<open>getRandomTimeout\<close> is \<open>Math.floor(Math.random() * (MAX - MIN + 1) + MIN)\<close>. The draw is an
  input of the model; \<open>validTimeout\<close> is the range of the formula: the integers from
  \<open>MIN\<close> to \<open>MAX\<close>, and \<open>MAX + 1\<close> when \<open>Math.random()\<close> is so close to 1 that the
  floating-point sum rounds up to 301.
\<close>

definition validTimeout :: "int \<Rightarrow> bool" where
  "validTimeout r = (MIN_ELECTION_TIMEOUT \<le> r \<and> r \<le> MAX_ELECTION_TIMEOUT + 1)"

text \<open>\<open>createNode\<close>, given the two draws it makes.\<close>

definition createNode :: "int \<Rightarrow> int \<Rightarrow> int \<Rightarrow> RaftNode" where
  "createNode i r1 r2 =
     \<lparr> nid = i, state = FOLLOWER, currentTerm = 0, votedFor = None, nlog = [],
       commitIndex = -1, electionTimeout = r1, currentTimeoutDuration = r2,
       nextIndex = [], matchIndex = [], heartbeatTimer = 0 \<rparr>"

text \<open>
  \<open>log.length - 1\<close> and the term of the last entry, \<open>-1\<close> for an empty log
  (\<open>myLastLogIndex >= 0 ? log[myLastLogIndex].term : -1\<close>).
\<close>

definition lastLogIndexOf :: "LogEntry list \<Rightarrow> int" where
  "lastLogIndexOf lg = int (length lg) - 1"

definition lastLogTermOf :: "LogEntry list \<Rightarrow> int" where
  "lastLogTermOf lg = (if lastLogIndexOf lg \<ge> 0 then entry_term (lg ! nat (lastLogIndexOf lg)) else -1)"

subsection \<open>processRequestVote\<close>

definition adoptTerm :: "RaftNode \<Rightarrow> int \<Rightarrow> RaftNode" where
  "adoptTerm node t =
     (if t > currentTerm node
      then node\<lparr> currentTerm := t, state := FOLLOWER, votedFor := None \<rparr>
      else node)"

definition logIsUpToDate :: "RaftNode \<Rightarrow> RequestVotePayload \<Rightarrow> bool" where
  "logIsUpToDate node p =
     (lastLogTerm p > lastLogTermOf (nlog node) \<or>
      (lastLogTerm p = lastLogTermOf (nlog node) \<and> lastLogIndex p \<ge> lastLogIndexOf (nlog node)))"

definition processRequestVote :: "RaftNode \<Rightarrow> RequestVotePayload \<Rightarrow> RaftNode \<times> Packet" where
  "processRequestVote node p =
     (let updatedNode = adoptTerm node (rv_term p);
          granted = (rv_term p \<ge> currentTerm updatedNode \<and>
                     (votedFor updatedNode = None \<or> votedFor updatedNode = Some (candidateId p)) \<and>
                     logIsUpToDate updatedNode p);
          updatedNode' = (if granted
                          then updatedNode\<lparr> votedFor := Some (candidateId p),
                                            electionTimeout := currentTimeoutDuration updatedNode \<rparr>
                          else updatedNode);
          replyPacket = \<lparr> pfrom = nid node, pto = candidateId p,
                          payload = VOTE_RESPONSE \<lparr> vr_term = currentTerm updatedNode', voteGranted = granted \<rparr>,
                          progress = 0, speed = PACKET_SPEED \<rparr>
      in (updatedNode', replyPacket))"

subsection \<open>processVoteResponse\<close>

text \<open>The body of the second \<open>if\<close> in the source is empty (comments only).\<close>

definition processVoteResponse :: "RaftNode \<Rightarrow> VoteResponsePayload \<Rightarrow> RaftNode" where
  "processVoteResponse node p = adoptTerm node (vr_term p)"

subsection \<open>processAppendEntries\<close>

text \<open>
  The only place where the handlers can raise: \<open>updatedNode.log[prevLogIndex].term\<close>
  reads \<open>.term\<close> of \<open>undefined\<close> when \<open>prevLogIndex < -1\<close> (the guard
  \<open>log.length > prevLogIndex\<close> holds and an array has no negative index).
\<close>

datatype error = TypeError

text \<open>
  The \<open>while\<close> loop over the supplied entries. \<open>i\<close> is \<open>logInsertIndex\<close>; the
  remaining list is \<open>entries\<close> from \<open>newEntriesIndex\<close> on. The loop is entered with
  \<open>logInsertIndex = prevLogIndex + 1 \<ge> 0\<close>, so the index is a \<open>nat\<close>.
\<close>

fun insertEntries :: "LogEntry list \<Rightarrow> nat \<Rightarrow> LogEntry list \<Rightarrow> LogEntry list" where
  "insertEntries lg i [] = lg"
| "insertEntries lg i (e # es) =
     (if i \<ge> length lg then insertEntries (lg @ [e]) (Suc i) es
      else if entry_term (lg ! i) \<noteq> entry_term e then insertEntries (take i lg @ [e]) (Suc i) es
      else insertEntries lg (Suc i) es)"

text \<open>
  For stating what the loop does: the number of leading supplied entries for which the log
  already holds an entry of the same term at the corresponding position (from \<open>i\<close> on).
\<close>

fun agreeing :: "LogEntry list \<Rightarrow> nat \<Rightarrow> LogEntry list \<Rightarrow> nat" where
  "agreeing lg i [] = 0"
| "agreeing lg i (e # es) =
     (if i < length lg \<and> entry_term (lg ! i) = entry_term e then Suc (agreeing lg (Suc i) es) else 0)"

definition heardFrom :: "RaftNode \<Rightarrow> int \<Rightarrow> RaftNode" where
  "heardFrom node t =
     (if t \<ge> currentTerm node
      then node\<lparr> currentTerm := t, state := FOLLOWER, votedFor := None,
                 electionTimeout := currentTimeoutDuration node \<rparr>
      else node)"

definition logOk :: "RaftNode \<Rightarrow> AppendEntriesPayload \<Rightarrow> bool" where
  "logOk node p =
     (prevLogIndex p = -1 \<or>
      (int (length (nlog node)) > prevLogIndex p \<and>
       entry_term (nlog node ! nat (prevLogIndex p)) = prevLogTerm p))"

definition appendReply :: "RaftNode \<Rightarrow> RaftNode \<Rightarrow> AppendEntriesPayload \<Rightarrow> bool \<Rightarrow> Packet" where
  "appendReply node updatedNode p ok =
     \<lparr> pfrom = nid node, pto = leaderId p,
       payload = APPEND_RESPONSE \<lparr> ar_term = currentTerm updatedNode, success = ok,
                                   ar_matchIndex = int (length (nlog updatedNode)) - 1 \<rparr>,
       progress = 0, speed = PACKET_SPEED \<rparr>"

definition processAppendEntries ::
  "RaftNode \<Rightarrow> AppendEntriesPayload \<Rightarrow> error + (RaftNode \<times> Packet)" where
  "processAppendEntries node p =
     (let updatedNode = heardFrom node (ae_term p) in
      if ae_term p < currentTerm updatedNode
      then Inr (updatedNode, appendReply node updatedNode p False)
      else if prevLogIndex p < -1 then Inl TypeError
      else if \<not> logOk updatedNode p
      then Inr (updatedNode, appendReply node updatedNode p False)
      else
        let lg = insertEntries (nlog updatedNode) (nat (prevLogIndex p + 1)) (entries p);
            ci = (if leaderCommit p > commitIndex updatedNode
                  then min (leaderCommit p) (int (length lg) - 1)
                  else commitIndex updatedNode);
            updatedNode' = updatedNode\<lparr> nlog := lg, commitIndex := ci \<rparr>
        in Inr (updatedNode', appendReply node updatedNode' p True))"

section \<open>Simulation engine (the App component: broadcast, tick, the control operations)\<close>

definition NODE_COUNT :: int where "NODE_COUNT = 5"

text \<open>
  The engine's state is \<open>stateRef.current\<close>: the nodes, the packets in flight and the
  vote tracker \<open>votesReceived : Record<number, Set<number>>\<close>. A missing key of the
  tracker is treated by the source as an empty set (\<open>if (!currentVotes[id]) ... = new Set()\<close>),
  so the tracker is a total function into sets.
\<close>

record SimState =
  nodes :: "RaftNode list"
  packets :: "Packet list"
  votesReceived :: "int \<Rightarrow> int set"

text \<open>\<open>Array.prototype.findIndex\<close>; \<open>None\<close> is the source's \<open>-1\<close>.\<close>

fun findIndex :: "('a \<Rightarrow> bool) \<Rightarrow> 'a list \<Rightarrow> nat option" where
  "findIndex P [] = None"
| "findIndex P (x # xs) = (if P x then Some 0 else map_option Suc (findIndex P xs))"

text \<open>
  \<open>r[k] || 1\<close> on a record of numbers: the right operand when the left one is
  \<open>undefined\<close> (missing key) or \<open>0\<close>, both falsy.
\<close>

definition orOne :: "int option \<Rightarrow> int" where
  "orOne v = (case v of None \<Rightarrow> 1 | Some x \<Rightarrow> if x = 0 then 1 else x)"

text \<open>\<open>Array.prototype.slice(start)\<close>: a negative start counts from the end.\<close>

definition jsSlice :: "'a list \<Rightarrow> int \<Rightarrow> 'a list" where
  "jsSlice xs start =
     (if start < 0 then drop (nat (max (int (length xs) + start) 0)) xs else drop (nat start) xs)"

text \<open>\<open>xs.sort((a, b) => b - a)\<close> on numbers, and \<open>xs[i]\<close> with \<open>undefined\<close> as \<open>None\<close>.\<close>

definition sortDescending :: "int list \<Rightarrow> int list" where
  "sortDescending xs = rev (sort xs)"

definition nthOpt :: "'a list \<Rightarrow> int \<Rightarrow> 'a option" where
  "nthOpt xs i = (if 0 \<le> i \<and> i < int (length xs) then Some (xs ! nat i) else None)"

definition broadcast :: "rat \<Rightarrow> RaftNode \<Rightarrow> Payload \<Rightarrow> RaftNode list \<Rightarrow> Packet list" where
  "broadcast playbackSpeed sender pl nodesList =
     map (\<lambda>target. \<lparr> pfrom = nid sender, pto = nid target, payload = pl,
                       progress = 0, speed = PACKET_SPEED * playbackSpeed \<rparr>)
         (filter (\<lambda>n. nid n \<noteq> nid sender \<and> state n \<noteq> CRASHED) nodesList)"

subsection \<open>Step 1 of tick: move packets\<close>

definition movePacket :: "Packet \<Rightarrow> Packet" where
  "movePacket p = p\<lparr> progress := progress p + speed p \<rparr>"

definition arrivedPackets :: "Packet list \<Rightarrow> Packet list" where
  "arrivedPackets ps = filter (\<lambda>p. progress p \<ge> 100) (map movePacket ps)"

definition survivingPackets :: "Packet list \<Rightarrow> Packet list" where
  "survivingPackets ps = filter (\<lambda>p. \<not> progress p \<ge> 100) (map movePacket ps)"

subsection \<open>Step 2 of tick: process arrived packets\<close>

text \<open>
  The leader's handling of an AppendResponse (the \<open>APPEND_RESPONSE\<close> branch of tick),
  for a response sent by node \<open>from\<close>.
\<close>

definition majorityN :: "RaftNode \<Rightarrow> int option" where
  "majorityN node =
     nthOpt (sortDescending ((int (length (nlog node)) - 1) # map snd (matchIndex node)))
            (NODE_COUNT div 2)"

definition advanceCommit :: "RaftNode \<Rightarrow> RaftNode" where
  "advanceCommit node =
     (case majorityN node of
        None \<Rightarrow> node
      | Some m \<Rightarrow>
          (case (if m > commitIndex node then nthOpt (nlog node) m else None) of
             None \<Rightarrow> node
           | Some e \<Rightarrow> if entry_term e = currentTerm node then node\<lparr> commitIndex := m \<rparr> else node))"

definition onAppendResponse :: "RaftNode \<Rightarrow> int \<Rightarrow> AppendResponsePayload \<Rightarrow> RaftNode" where
  "onAppendResponse targetNode from p =
     (if ar_term p > currentTerm targetNode
      then targetNode\<lparr> state := FOLLOWER, currentTerm := ar_term p, votedFor := None \<rparr>
      else if state targetNode = LEADER \<and> ar_term p = currentTerm targetNode
      then (if success p
            then advanceCommit
                   (targetNode\<lparr> matchIndex := AList.update from (ar_matchIndex p) (matchIndex targetNode),
                                 nextIndex := AList.update from (ar_matchIndex p + 1) (nextIndex targetNode) \<rparr>)
            else targetNode\<lparr> nextIndex :=
                   AList.update from (max 0 (orOne (map_of (nextIndex targetNode) from) - 1))
                                (nextIndex targetNode) \<rparr>)
      else targetNode)"

text \<open>
  The candidate's handling of a VoteResponse sent by node \<open>from\<close>: the handler, then the
  vote counting of the tick loop. It returns the node and the tracker.
\<close>

definition becomeLeader :: "RaftNode list \<Rightarrow> RaftNode \<Rightarrow> RaftNode" where
  "becomeLeader currentNodes node =
     node\<lparr> state := LEADER, heartbeatTimer := 0,
           nextIndex := fold (\<lambda>n r. AList.update (nid n) (int (length (nlog node))) r)
                             currentNodes (nextIndex node),
           matchIndex := fold (\<lambda>n r. AList.update (nid n) 0 r) currentNodes (matchIndex node) \<rparr>"

definition onVoteResponse ::
  "RaftNode list \<Rightarrow> (int \<Rightarrow> int set) \<Rightarrow> RaftNode \<Rightarrow> int \<Rightarrow> VoteResponsePayload
     \<Rightarrow> RaftNode \<times> (int \<Rightarrow> int set)" where
  "onVoteResponse currentNodes currentVotes targetNode from p =
     (let updatedNode = processVoteResponse targetNode p in
      if state updatedNode = CANDIDATE \<and> vr_term p = currentTerm updatedNode \<and> voteGranted p
      then let vs = insert from (currentVotes (nid updatedNode)) in
           if of_nat (card vs) + 1 > (of_int NODE_COUNT :: rat) / 2
           then (becomeLeader currentNodes updatedNode, currentVotes(nid updatedNode := {}))
           else (updatedNode, currentVotes(nid updatedNode := vs))
      else (updatedNode, currentVotes))"

type_synonym Working = "RaftNode list \<times> Packet list \<times> (int \<Rightarrow> int set)"

definition deliver :: "Packet \<Rightarrow> Working \<Rightarrow> error + Working" where
  "deliver packet w =
     (case w of (currentNodes, surviving, currentVotes) \<Rightarrow>
       (case findIndex (\<lambda>n. nid n = pto packet) currentNodes of
          None \<Rightarrow> Inr w
        | Some i \<Rightarrow>
            let targetNode = currentNodes ! i in
            if state targetNode = CRASHED then Inr w
            else (case payload packet of
                REQUEST_VOTE p \<Rightarrow>
                  (case processRequestVote targetNode p of
                     (updatedNode, replyPacket) \<Rightarrow>
                       Inr (currentNodes[i := updatedNode], surviving @ [replyPacket], currentVotes))
              | VOTE_RESPONSE p \<Rightarrow>
                  (case onVoteResponse currentNodes currentVotes targetNode (pfrom packet) p of
                     (updatedNode, votes') \<Rightarrow> Inr (currentNodes[i := updatedNode], surviving, votes'))
              | APPEND_ENTRIES p \<Rightarrow>
                  (case processAppendEntries targetNode p of
                     Inl e \<Rightarrow> Inl e
                   | Inr (updatedNode, replyPacket) \<Rightarrow>
                       Inr (currentNodes[i := updatedNode], surviving @ [replyPacket], currentVotes))
              | APPEND_RESPONSE p \<Rightarrow>
                  Inr (currentNodes[i := onAppendResponse targetNode (pfrom packet) p],
                       surviving, currentVotes))))"

fun deliverAll :: "Packet list \<Rightarrow> Working \<Rightarrow> error + Working" where
  "deliverAll [] w = Inr w"
| "deliverAll (p # ps) w = (case deliver p w of Inl e \<Rightarrow> Inl e | Inr w' \<Rightarrow> deliverAll ps w')"

subsection \<open>Step 3 of tick: node maintenance\<close>

definition requestVoteFor :: "RaftNode \<Rightarrow> Payload" where
  "requestVoteFor node =
     REQUEST_VOTE \<lparr> rv_term = currentTerm node, candidateId = nid node,
                    lastLogIndex = lastLogIndexOf (nlog node),
                    lastLogTerm = lastLogTermOf (nlog node) \<rparr>"

text \<open>The AppendEntries packet a leader builds for one peer when its heartbeat timer fires.\<close>

definition appendEntriesFor :: "rat \<Rightarrow> RaftNode \<Rightarrow> int \<Rightarrow> Packet" where
  "appendEntriesFor playbackSpeed leader peerId =
     (let prevIdx = orOne (map_of (nextIndex leader) peerId) - 1;
          prevTerm = (if prevIdx \<ge> 0 \<and> prevIdx < int (length (nlog leader))
                      then entry_term (nlog leader ! nat prevIdx) else -1)
      in \<lparr> pfrom = nid leader, pto = peerId,
           payload = APPEND_ENTRIES \<lparr> ae_term = currentTerm leader, leaderId = nid leader,
                                       prevLogIndex = prevIdx, prevLogTerm = prevTerm,
                                       entries = jsSlice (nlog leader) (prevIdx + 1),
                                       leaderCommit = commitIndex leader \<rparr>,
           progress = 0, speed = PACKET_SPEED * playbackSpeed \<rparr>)"

definition heartbeatPackets :: "rat \<Rightarrow> RaftNode \<Rightarrow> RaftNode list \<Rightarrow> Packet list" where
  "heartbeatPackets playbackSpeed leader currentNodes =
     map (\<lambda>peer. appendEntriesFor playbackSpeed leader (nid peer))
         (filter (\<lambda>peer. \<not> (nid peer = nid leader \<or> state peer = CRASHED)) currentNodes)"

text \<open>
  The callback of \<open>currentNodes.map\<close> for one node: the node it returns, the packets it
  pushes and whether it resets the node's vote tracker. \<open>r\<close> is the value
  \<open>getRandomTimeout()\<close> returns if the node starts an election in this tick.
\<close>

definition electionStep :: "int \<Rightarrow> rat \<Rightarrow> RaftNode list \<Rightarrow> RaftNode \<Rightarrow> RaftNode \<times> Packet list \<times> bool" where
  "electionStep r playbackSpeed currentNodes node =
     (if state node \<noteq> LEADER
      then let n1 = node\<lparr> electionTimeout := electionTimeout node - 1 \<rparr> in
           if electionTimeout n1 \<le> 0
           then let n2 = n1\<lparr> state := CANDIDATE, currentTerm := currentTerm n1 + 1,
                             votedFor := Some (nid n1), currentTimeoutDuration := r,
                             electionTimeout := r \<rparr>
                in (n2, broadcast playbackSpeed n2 (requestVoteFor n2) currentNodes, True)
           else (n1, [], False)
      else (node, [], False))"

definition heartbeatStep :: "rat \<Rightarrow> RaftNode list \<Rightarrow> RaftNode \<Rightarrow> RaftNode \<times> Packet list" where
  "heartbeatStep playbackSpeed currentNodes node =
     (if state node = LEADER
      then let n1 = node\<lparr> heartbeatTimer := heartbeatTimer node - 1 \<rparr> in
           if heartbeatTimer n1 \<le> 0
           then let n2 = n1\<lparr> heartbeatTimer := HEARTBEAT_INTERVAL \<rparr>
                in (n2, heartbeatPackets playbackSpeed n2 currentNodes)
           else (n1, [])
      else (node, []))"

definition maintainNode :: "(int \<Rightarrow> int) \<Rightarrow> rat \<Rightarrow> RaftNode list \<Rightarrow> RaftNode \<Rightarrow> RaftNode \<times> Packet list \<times> bool" where
  "maintainNode rnd playbackSpeed currentNodes node =
     (if state node = CRASHED then (node, [], False)
      else case electionStep (rnd (nid node)) playbackSpeed currentNodes node of
             (n1, votePackets, reset) \<Rightarrow>
               (case heartbeatStep playbackSpeed currentNodes n1 of
                  (n2, hb) \<Rightarrow> (n2, votePackets @ hb, reset)))"

text \<open>
  The \<open>map\<close> over the nodes, in order; \<open>currentNodes\<close> is the array before the map (the
  callbacks read the ids and crash states of the peers from it).
\<close>

fun maintainAll :: "(int \<Rightarrow> int) \<Rightarrow> rat \<Rightarrow> RaftNode list \<Rightarrow> RaftNode list \<Rightarrow> Working \<Rightarrow> Working" where
  "maintainAll rnd playbackSpeed currentNodes [] w = w"
| "maintainAll rnd playbackSpeed currentNodes (node # rest) (done, surviving, currentVotes) =
     (case maintainNode rnd playbackSpeed currentNodes node of
        (node', newPackets, reset) \<Rightarrow>
          maintainAll rnd playbackSpeed currentNodes rest
            (done @ [node'], surviving @ newPackets,
             if reset then currentVotes(nid node' := {}) else currentVotes))"

subsection \<open>tick\<close>

text \<open>
  One tick. \<open>paused\<close> and \<open>playbackSpeed\<close> are the values the callback closes over;
  \<open>rnd i\<close> is the timeout node \<open>i\<close> draws if it starts an election in this tick. An
  exception leaves \<open>stateRef.current\<close> unassigned; it is the result \<open>Inl\<close>.
\<close>

definition tick :: "bool \<Rightarrow> rat \<Rightarrow> (int \<Rightarrow> int) \<Rightarrow> SimState \<Rightarrow> error + SimState" where
  "tick paused playbackSpeed rnd st =
     (if paused then Inr st
      else case deliverAll (arrivedPackets (packets st))
                  (nodes st, survivingPackets (packets st), votesReceived st) of
             Inl e \<Rightarrow> Inl e
           | Inr (currentNodes, surviving, currentVotes) \<Rightarrow>
               (case maintainAll rnd playbackSpeed currentNodes currentNodes ([], surviving, currentVotes) of
                  (newNodes, newPackets, newVotes) \<Rightarrow>
                    Inr \<lparr> nodes = newNodes, packets = newPackets, votesReceived = newVotes \<rparr>))"

subsection \<open>Control operations\<close>

text \<open>\<open>toggleNodeState\<close>; \<open>r\<close> is the timeout drawn on revival.\<close>

definition toggleNode :: "int \<Rightarrow> RaftNode \<Rightarrow> RaftNode" where
  "toggleNode r node =
     (if state node = CRASHED then node\<lparr> state := FOLLOWER, electionTimeout := r \<rparr>
      else node\<lparr> state := CRASHED \<rparr>)"

definition toggleNodeState :: "int \<Rightarrow> int \<Rightarrow> SimState \<Rightarrow> SimState" where
  "toggleNodeState i r st =
     (case findIndex (\<lambda>n. nid n = i) (nodes st) of
        None \<Rightarrow> st
      | Some k \<Rightarrow> st\<lparr> nodes := (nodes st)[k := toggleNode r (nodes st ! k)] \<rparr>)"

text \<open>
  \<open>proposeLog\<close>; \<open>cmd\<close> is the command drawn from the list. Without a leader the source
  alerts and changes nothing.
\<close>

definition proposeLog :: "string \<Rightarrow> SimState \<Rightarrow> SimState" where
  "proposeLog cmd st =
     (case findIndex (\<lambda>n. state n = LEADER) (nodes st) of
        None \<Rightarrow> st
      | Some k \<Rightarrow>
          let leader = nodes st ! k in
          st\<lparr> nodes := (nodes st)[k := leader\<lparr> nlog := nlog leader @
                               [\<lparr> entry_term = currentTerm leader, command = cmd \<rparr>] \<rparr>] \<rparr>)"

text \<open>The initial cluster: \<open>NODE_COUNT\<close> nodes with ids from 0, no packets, empty trackers.\<close>

definition initialState :: "(int \<Rightarrow> int) \<Rightarrow> (int \<Rightarrow> int) \<Rightarrow> SimState" where
  "initialState r1 r2 =
     \<lparr> nodes = map (\<lambda>i. createNode i (r1 i) (r2 i)) [0 .. NODE_COUNT - 1],
       packets = [], votesReceived = (\<lambda>_. {}) \<rparr>"

section \<open>Election safety: definitions\<close>

subsection \<open>Nodes, packets and votes of one term\<close>

text \<open>The ids of the cluster, and the node stored at index \<open>k\<close> of the array.\<close>

definition ids :: "int set" where "ids = {0 ..< NODE_COUNT}"

definition nd :: "RaftNode list \<Rightarrow> int \<Rightarrow> RaftNode" where "nd ns k = ns ! nat k"

text \<open>
  The array holds \<open>NODE_COUNT\<close> nodes, node \<open>k\<close> at index \<open>k\<close>, none of them crashed (a tick
  never crashes a node; only \<open>toggleNodeState\<close> does).
\<close>

definition wfNodes :: "RaftNode list \<Rightarrow> bool" where
  "wfNodes ns = (int (length ns) = NODE_COUNT \<and> (\<forall>k \<in> ids. nid (nd ns k) = k \<and> state (nd ns k) \<noteq> CRASHED))"

text \<open>
  A packet travels between two different nodes of the cluster, and a RequestVote or an
  AppendEntries names its sender in the payload.
\<close>

definition wfPacket :: "Packet \<Rightarrow> bool" where
  "wfPacket q = (pfrom q \<in> ids \<and> pto q \<in> ids \<and> pfrom q \<noteq> pto q \<and>
     (case payload q of REQUEST_VOTE p \<Rightarrow> candidateId p = pfrom q
                      | APPEND_ENTRIES p \<Rightarrow> leaderId p = pfrom q
                      | _ \<Rightarrow> True))"

text \<open>Node \<open>c\<close> is a candidate, or the leader, of term \<open>t\<close>.\<close>

definition candidateOf :: "RaftNode list \<Rightarrow> int \<Rightarrow> int \<Rightarrow> bool" where
  "candidateOf ns t c = (state (nd ns c) = CANDIDATE \<and> currentTerm (nd ns c) = t)"

definition leaderOf :: "RaftNode list \<Rightarrow> int \<Rightarrow> int \<Rightarrow> bool" where
  "leaderOf ns t c = (state (nd ns c) = LEADER \<and> currentTerm (nd ns c) = t)"

text \<open>
  Node \<open>x\<close> has reached term \<open>t\<close> and is not a candidate of it: it can no longer become the
  leader of term \<open>t\<close>, since only a candidate of \<open>t\<close> is promoted and terms never decrease.
\<close>

definition settled :: "RaftNode list \<Rightarrow> int \<Rightarrow> int \<Rightarrow> bool" where
  "settled ns t x = (t \<le> currentTerm (nd ns x) \<and> \<not> candidateOf ns t x)"

text \<open>
  Packet \<open>q\<close> is a granted vote of \<open>x\<close> for \<open>c\<close> in term \<open>t\<close>; packet \<open>q\<close> is an AppendEntries
  of term \<open>t\<close>.
\<close>

definition isVR :: "int \<Rightarrow> int \<Rightarrow> int \<Rightarrow> Packet \<Rightarrow> bool" where
  "isVR t x c q = (pfrom q = x \<and> pto q = c \<and> payload q = VOTE_RESPONSE \<lparr> vr_term = t, voteGranted = True \<rparr>)"

definition isAE :: "int \<Rightarrow> Packet \<Rightarrow> bool" where
  "isAE t q = (case payload q of APPEND_ENTRIES p \<Rightarrow> ae_term p = t | _ \<Rightarrow> False)"

text \<open>
  A vote of \<open>x\<close> for \<open>c\<close> in term \<open>t\<close> counts or may still count: it is in flight, or it
  is in the tracker of \<open>c\<close> while \<open>c\<close> is a candidate of \<open>t\<close>.
\<close>

definition supports :: "RaftNode list \<Rightarrow> Packet set \<Rightarrow> (int \<Rightarrow> int set) \<Rightarrow> int \<Rightarrow> int \<Rightarrow> int \<Rightarrow> bool" where
  "supports ns P V t x c = ((\<exists>q \<in> P. isVR t x c q) \<or> (candidateOf ns t c \<and> x \<in> V c))"

text \<open>
  Node \<open>x\<close> is bound to \<open>c\<close> in term \<open>t\<close>: it has reached the term, while it is in the term
  its \<open>votedFor\<close> is \<open>c\<close>, and no vote of \<open>x\<close> for another node counts.
\<close>

definition committed :: "RaftNode list \<Rightarrow> Packet set \<Rightarrow> (int \<Rightarrow> int set) \<Rightarrow> int \<Rightarrow> int \<Rightarrow> int \<Rightarrow> bool" where
  "committed ns P V t x c =
     (t \<le> currentTerm (nd ns x) \<and> (currentTerm (nd ns x) = t \<longrightarrow> votedFor (nd ns x) = Some c) \<and>
      (\<forall>c' \<in> ids. c' \<noteq> c \<longrightarrow> \<not> supports ns P V t x c'))"

text \<open>
  The vote invariant of term \<open>t\<close>: a vote that counts comes from another node that is bound
  to the candidate; a candidate or leader of \<open>t\<close> is bound to itself; a leader of \<open>t\<close> has two
  other nodes bound to it. With \<open>NODE_COUNT = 5\<close> two leaders of one term would need six
  different nodes.
\<close>

definition voteInv :: "RaftNode list \<Rightarrow> Packet set \<Rightarrow> (int \<Rightarrow> int set) \<Rightarrow> int \<Rightarrow> bool" where
  "voteInv ns P V t =
     ((\<forall>x \<in> ids. \<forall>c \<in> ids. supports ns P V t x c \<longrightarrow> x \<noteq> c \<and> committed ns P V t x c) \<and>
      (\<forall>c \<in> ids. candidateOf ns t c \<or> leaderOf ns t c \<longrightarrow> committed ns P V t c c) \<and>
      (\<forall>a \<in> ids. leaderOf ns t a \<longrightarrow>
         (\<exists>x \<in> ids. \<exists>y \<in> ids. x \<noteq> y \<and> x \<noteq> a \<and> y \<noteq> a \<and>
            committed ns P V t x a \<and> committed ns P V t y a)))"

definition uniqueLeader :: "RaftNode list \<Rightarrow> int \<Rightarrow> bool" where
  "uniqueLeader ns t = (\<forall>a \<in> ids. \<forall>c \<in> ids. leaderOf ns t a \<and> leaderOf ns t c \<longrightarrow> a = c)"

text \<open>Well-formedness of the nodes, the packets in flight and the vote trackers.\<close>

definition wellFormed :: "RaftNode list \<Rightarrow> Packet set \<Rightarrow> (int \<Rightarrow> int set) \<Rightarrow> bool" where
  "wellFormed ns P V = (wfNodes ns \<and> (\<forall>q \<in> P. wfPacket q) \<and> (\<forall>c. V c \<subseteq> ids))"

text \<open>
  What the delivery of packet \<open>q\<close> does, as far as the invariant is concerned: it replaces
  the addressee by \<open>n'\<close>, pushes the packets \<open>N\<close> and turns the trackers into \<open>V'\<close>.
\<close>

definition deliveryFacts ::
  "RaftNode list \<Rightarrow> Packet set \<Rightarrow> (int \<Rightarrow> int set) \<Rightarrow> Packet \<Rightarrow> RaftNode list \<Rightarrow> (int \<Rightarrow> int set)
     \<Rightarrow> RaftNode \<Rightarrow> Packet list \<Rightarrow> bool" where
  "deliveryFacts ns P V q ns' V' n' N =
    (pto q \<in> ids \<and> length ns = 5 \<and> ns' = ns[nat (pto q) := n'] \<and>
     wellFormed ns' (P \<union> set N) V' \<and> (\<forall>r \<in> set N. \<forall>t'. \<not> isAE t' r) \<and>
     (\<forall>x \<in> ids. \<forall>t'. settled ns t' x \<longrightarrow> settled ns' t' x) \<and>
     currentTerm (nd ns (pto q)) \<le> currentTerm n' \<and>
     (state n' = CANDIDATE \<longrightarrow> state (nd ns (pto q)) = CANDIDATE \<and> currentTerm n' = currentTerm (nd ns (pto q))) \<and>
     (\<forall>t. state n' = LEADER \<and> currentTerm n' = t \<longrightarrow>
           (state (nd ns (pto q)) = LEADER \<and> currentTerm (nd ns (pto q)) = t) \<or>
           (state (nd ns (pto q)) = CANDIDATE \<and> currentTerm (nd ns (pto q)) = t \<and>
            (\<exists>x \<in> ids. \<exists>y \<in> ids. x \<noteq> y \<and> supports ns P V t x (pto q) \<and> supports ns P V t y (pto q)))) \<and>
     (\<forall>t. \<not> isAE t q \<longrightarrow> currentTerm (nd ns (pto q)) = t \<and> currentTerm n' = t \<longrightarrow>
           votedFor n' = votedFor (nd ns (pto q)) \<or>
           (\<exists>c. votedFor n' = Some c \<and> (votedFor (nd ns (pto q)) = None \<or> votedFor (nd ns (pto q)) = Some c))) \<and>
     (\<forall>t. \<forall>c \<in> ids. \<forall>x \<in> ids. candidateOf ns' t c \<and> x \<in> V' c \<longrightarrow> supports ns P V t x c) \<and>
     (\<forall>t. \<forall>r \<in> set N. \<forall>x \<in> ids. \<forall>c \<in> ids. isVR t x c r \<longrightarrow>
           x = pto q \<and> c \<noteq> pto q \<and> currentTerm n' = t \<and> votedFor n' = Some c \<and>
           (currentTerm (nd ns (pto q)) = t \<longrightarrow> votedFor (nd ns (pto q)) = None \<or> votedFor (nd ns (pto q)) = Some c)) \<and>
     (\<forall>t. isAE t q \<longrightarrow> settled ns' t (pto q)))"

text \<open>
  The invariant used within the tick in which the first AppendEntries of term \<open>t\<close> arrive.
  There a voter may be moved to a later term before the leader is told, so the vote
  invariant is kept for the arrived packets only, with \<open>settled\<close> in place of \<open>committed\<close>.
\<close>

definition exclusive :: "RaftNode list \<Rightarrow> Packet set \<Rightarrow> (int \<Rightarrow> int set) \<Rightarrow> int \<Rightarrow> int \<Rightarrow> int \<Rightarrow> bool" where
  "exclusive ns A V t x c = (\<forall>c' \<in> ids. c' \<noteq> c \<longrightarrow> \<not> supports ns A V t x c')"

definition arrivalInv :: "RaftNode list \<Rightarrow> Packet set \<Rightarrow> (int \<Rightarrow> int set) \<Rightarrow> int \<Rightarrow> bool" where
  "arrivalInv ns A V t =
     ((\<forall>x \<in> ids. \<forall>c \<in> ids. supports ns A V t x c \<longrightarrow> x \<noteq> c \<and> settled ns t x \<and> exclusive ns A V t x c) \<and>
      (\<forall>c \<in> ids. candidateOf ns t c \<or> leaderOf ns t c \<longrightarrow> exclusive ns A V t c c) \<and>
      (\<forall>a \<in> ids. leaderOf ns t a \<longrightarrow>
         (\<exists>x \<in> ids. \<exists>y \<in> ids. x \<noteq> y \<and> x \<noteq> a \<and> y \<noteq> a \<and> settled ns t x \<and> settled ns t y \<and>
            exclusive ns A V t x a \<and> exclusive ns A V t y a)))"

text \<open>
  The AppendEntries packets of a term travel in batches: a heartbeat sends one packet to
  every other node, all with the same speed, so they arrive in the same tick. The sender
  of an AppendEntries of term \<open>t\<close> is settled in \<open>t\<close>. Once that batch has arrived every node
  is settled in \<open>t\<close>.
\<close>

definition batched :: "Packet set \<Rightarrow> int \<Rightarrow> bool" where
  "batched P t = (\<forall>q \<in> P. isAE t q \<longrightarrow>
     (\<forall>d \<in> ids. d \<noteq> pfrom q \<longrightarrow>
        (\<exists>q' \<in> P. isAE t q' \<and> pto q' = d \<and> progress q' = progress q \<and> speed q' = speed q)))"

definition senderSettled :: "RaftNode list \<Rightarrow> Packet set \<Rightarrow> bool" where
  "senderSettled ns P = (\<forall>q \<in> P. \<forall>t. isAE t q \<longrightarrow> settled ns t (pfrom q))"

definition allSettled :: "RaftNode list \<Rightarrow> int \<Rightarrow> bool" where
  "allSettled ns t = (\<forall>d \<in> ids. settled ns t d)"

text \<open>
  The invariant of the simulation: in every term there is at most one leader, and either
  every node is settled in the term or the vote invariant holds and the AppendEntries of
  the term are still travelling in complete batches.
\<close>

definition clusterInv :: "RaftNode list \<Rightarrow> Packet set \<Rightarrow> (int \<Rightarrow> int set) \<Rightarrow> bool" where
  "clusterInv ns P V = (wellFormed ns P V \<and> senderSettled ns P \<and>
     (\<forall>t. uniqueLeader ns t \<and> (allSettled ns t \<or> (voteInv ns P V t \<and> batched P t))))"

text \<open>
  The two ways the maintenance callback changes a live node: it keeps id, role, term and
  vote, or it starts an election with the draw \<open>r\<close>.
\<close>

definition sameRole :: "RaftNode \<Rightarrow> RaftNode \<Rightarrow> bool" where
  "sameRole n n' = (nid n' = nid n \<and> state n' = state n \<and> currentTerm n' = currentTerm n \<and>
                 votedFor n' = votedFor n)"

definition startElection :: "int \<Rightarrow> RaftNode \<Rightarrow> RaftNode" where
  "startElection r n = n\<lparr> electionTimeout := electionTimeout n - 1, state := CANDIDATE,
                 currentTerm := currentTerm n + 1, votedFor := Some (nid n),
                 currentTimeoutDuration := r, electionTimeout := r \<rparr>"

definition stateInv :: "SimState \<Rightarrow> bool" where
  "stateInv st = clusterInv (nodes st) (set (packets st)) (votesReceived st)"

subsection \<open>Reachable states\<close>

text \<open>
  The states reachable by ticks from an initial cluster. The timeouts drawn at creation
  and at each election, the playback speed and the pause flag of each tick are arbitrary.
  A tick that raises assigns no new state, so it adds no state.
\<close>

inductive reachable :: "SimState \<Rightarrow> bool" where
  init: "reachable (initialState r1 r2)"
| step: "reachable st \<Longrightarrow> tick paused playbackSpeed rnd st = Inr st' \<Longrightarrow> reachable st'"

text \<open>
  \<open>k\<close> ticks in which no timer expires and no packet arrives only count the election
  timers down and move the packets; \<open>quiet k\<close> is the condition for that.
\<close>

definition advance :: "nat \<Rightarrow> SimState \<Rightarrow> SimState" where
  "advance k st =
     st\<lparr> nodes := map (\<lambda>n. n\<lparr> electionTimeout := electionTimeout n - int k \<rparr>) (nodes st),
         packets := map (\<lambda>p. p\<lparr> progress := progress p + of_nat k * speed p \<rparr>) (packets st) \<rparr>"

definition quiet :: "nat \<Rightarrow> SimState \<Rightarrow> bool" where
  "quiet k st =
     ((\<forall>n \<in> set (nodes st). state n \<noteq> LEADER \<and> state n \<noteq> CRASHED \<and> int k < electionTimeout n) \<and>
      (\<forall>p \<in> set (packets st). 0 \<le> speed p \<and> progress p + of_nat k * speed p < 100))"

text \<open>
  An election from the initial cluster at playback speed 1: node 0 draws the timeout 150,
  the other nodes 300, and every later draw is 300. The three states are those after tick
  150 (node 0 starts the election), tick 217 (the four RequestVotes arrive and are
  granted) and tick 284 (the votes arrive, node 0 becomes leader and sends a heartbeat).
\<close>

definition firstDraws :: "int \<Rightarrow> int" where "firstDraws i = (if i = 0 then 150 else 300)"

definition laterDraws :: "int \<Rightarrow> int" where "laterDraws i = 300"

definition electionStarted :: SimState where
  "electionStarted =
     \<lparr> nodes = (createNode 0 300 300)\<lparr> state := CANDIDATE, currentTerm := 1, votedFor := Some 0 \<rparr>
                 # map (\<lambda>i. createNode i 150 300) [1, 2, 3, 4],
       packets = map (\<lambda>i. \<lparr> pfrom = 0, pto = i,
                               payload = REQUEST_VOTE \<lparr> rv_term = 1, candidateId = 0,
                                                        lastLogIndex = -1, lastLogTerm = -1 \<rparr>,
                               progress = 0, speed = 3 / 2 \<rparr>) [1, 2, 3, 4],
       votesReceived = (\<lambda>_. {}) \<rparr>"

definition votesGranted :: SimState where
  "votesGranted =
     \<lparr> nodes = (createNode 0 233 300)\<lparr> state := CANDIDATE, currentTerm := 1, votedFor := Some 0 \<rparr>
                 # map (\<lambda>i. (createNode i 299 300)\<lparr> currentTerm := 1, votedFor := Some 0 \<rparr>) [1, 2, 3, 4],
       packets = map (\<lambda>i. \<lparr> pfrom = i, pto = 0,
                               payload = VOTE_RESPONSE \<lparr> vr_term = 1, voteGranted = True \<rparr>,
                               progress = 0, speed = 3 / 2 \<rparr>) [1, 2, 3, 4],
       votesReceived = (\<lambda>_. {}) \<rparr>"

definition leaderElected :: SimState where
  "leaderElected =
     \<lparr> nodes = (createNode 0 167 300)\<lparr> state := LEADER, currentTerm := 1, votedFor := Some 0,
                   nextIndex := map (\<lambda>i. (i, 0)) [0, 1, 2, 3, 4],
                   matchIndex := map (\<lambda>i. (i, 0)) [0, 1, 2, 3, 4],
                   heartbeatTimer := 50 \<rparr>
                 # map (\<lambda>i. (createNode i 232 300)\<lparr> currentTerm := 1, votedFor := Some 0 \<rparr>) [1, 2, 3, 4],
       packets = map (\<lambda>i. \<lparr> pfrom = 0, pto = i,
                               payload = APPEND_ENTRIES \<lparr> ae_term = 1, leaderId = 0, prevLogIndex = 0,
                                                          prevLogTerm = -1, entries = [], leaderCommit = -1 \<rparr>,
                               progress = 0, speed = 3 / 2 \<rparr>) [1, 2, 3, 4],
       votesReceived = (\<lambda>_. {}) \<rparr>"

section \<open>Commit index in the user-driven simulation: definitions\<close>

subsection \<open>The user-driven simulation\<close>

text \<open>
  The values the speed slider offers (\<open>min = 0.5\<close>, \<open>max = 5\<close>, \<open>step = 0.5\<close>) and the
  commands \<open>proposeLog\<close> draws from.
\<close>

definition sliderValues :: "rat list" where
  "sliderValues = map (\<lambda>k. of_nat k / 2) [1 ..< 11]"

definition commands :: "string list" where
  "commands = [''SET X=5'', ''ADD USER'', ''DEL DB'', ''INC Y'', ''MOV A->B'']"

text \<open>
  The states the running application reaches: from an initial cluster whose timeouts are in
  the range of \<open>getRandomTimeout\<close>, by ticks at a speed of the slider with draws in that
  range, by \<open>toggleNodeState\<close> and by \<open>proposeLog\<close>.
\<close>

inductive reachableOps :: "SimState \<Rightarrow> bool" where
  initial: "(\<forall>i. validTimeout (r1 i) \<and> validTimeout (r2 i)) \<Longrightarrow> reachableOps (initialState r1 r2)"
| ticked: "reachableOps st \<Longrightarrow> playbackSpeed \<in> set sliderValues \<Longrightarrow> (\<forall>i. validTimeout (rnd i)) \<Longrightarrow>
           tick paused playbackSpeed rnd st = Inr st' \<Longrightarrow> reachableOps st'"
| toggled: "reachableOps st \<Longrightarrow> validTimeout r \<Longrightarrow> reachableOps (toggleNodeState i r st)"
| proposed: "reachableOps st \<Longrightarrow> cmd \<in> set commands \<Longrightarrow> reachableOps (proposeLog cmd st)"

text \<open>
  A schedule is a list of user actions and waits; \<open>Ticks k s rnd\<close> stands for \<open>k\<close>
  consecutive ticks with the slider at \<open>s\<close> and the draws \<open>rnd\<close>. \<open>run\<close> executes a
  schedule; a tick that raises ends it.
\<close>

datatype action = Ticks nat rat "int \<Rightarrow> int" | Toggle int int | Propose string

fun ticks :: "nat \<Rightarrow> rat \<Rightarrow> (int \<Rightarrow> int) \<Rightarrow> SimState \<Rightarrow> error + SimState" where
  "ticks 0 playbackSpeed rnd st = Inr st"
| "ticks (Suc k) playbackSpeed rnd st =
     (case tick False playbackSpeed rnd st of Inl e \<Rightarrow> Inl e | Inr st' \<Rightarrow> ticks k playbackSpeed rnd st')"

fun run :: "action list \<Rightarrow> SimState \<Rightarrow> error + SimState" where
  "run [] st = Inr st"
| "run (Ticks k playbackSpeed rnd # as) st =
     (case ticks k playbackSpeed rnd st of Inl e \<Rightarrow> Inl e | Inr st' \<Rightarrow> run as st')"
| "run (Toggle i r # as) st = run as (toggleNodeState i r st)"
| "run (Propose cmd # as) st = run as (proposeLog cmd st)"

fun validAction :: "action \<Rightarrow> bool" where
  "validAction (Ticks k playbackSpeed rnd) = (playbackSpeed \<in> set sliderValues \<and> (\<forall>i. validTimeout (rnd i)))"
| "validAction (Toggle i r) = validTimeout r"
| "validAction (Propose cmd) = (cmd \<in> set commands)"

text \<open>
  \<open>k\<close> ticks in which no packet arrives and no timer expires only move the packets, count
  the election timers of the live non-leaders and the heartbeat timers of the leaders down;
  \<open>calm k\<close> is the condition for that.
\<close>

definition ageNode :: "nat \<Rightarrow> RaftNode \<Rightarrow> RaftNode" where
  "ageNode k n =
     (if state n = CRASHED then n
      else if state n = LEADER then n\<lparr> heartbeatTimer := heartbeatTimer n - int k \<rparr>
      else n\<lparr> electionTimeout := electionTimeout n - int k \<rparr>)"

definition elapse :: "nat \<Rightarrow> SimState \<Rightarrow> SimState" where
  "elapse k st =
     st\<lparr> nodes := map (ageNode k) (nodes st),
         packets := map (\<lambda>p. p\<lparr> progress := progress p + of_nat k * speed p \<rparr>) (packets st) \<rparr>"

definition calmNode :: "nat \<Rightarrow> RaftNode \<Rightarrow> bool" where
  "calmNode k n =
     (if state n = CRASHED then True
      else if state n = LEADER then int k < heartbeatTimer n
      else int k < electionTimeout n)"

definition calm :: "nat \<Rightarrow> SimState \<Rightarrow> bool" where
  "calm k st =
     (list_all (calmNode k) (nodes st) \<and>
      list_all (\<lambda>p. 0 \<le> speed p \<and> progress p + of_nat k * speed p < 100) (packets st))"

subsection \<open>A schedule that lowers a commit index\<close>

text \<open>
  The draws of the schedule: node 1 draws 200 when it starts an election, every other draw
  at an election is 300 (the draws at creation are \<open>firstDraws\<close> and \<open>laterDraws\<close>, the
  draws at a revival are given with the toggle).
\<close>

definition draws :: "int \<Rightarrow> int" where
  "draws i = (if i = 1 then 200 else 300)"

text \<open>
  The states of the schedule after tick 231 (node 0 has won term 1), tick 462 (node 1 has
  won term 1), tick 693 (node 2 has won term 1), tick 974 (node 2 has won term 2), tick 1255
  (node 0 has won term 2), tick 1356 (node 0 has committed index 2), tick 1489 (the logs of
  nodes 1 and 2 are truncated), tick 1782 and tick 1783.
\<close>

definition ledBy0 :: SimState where
  "ledBy0 =
     \<lparr> nodes =
         [\<lparr> nid = 0, state = LEADER, currentTerm = 1, votedFor = Some 0,
           nlog = [],
           commitIndex = -1, electionTimeout = 220, currentTimeoutDuration = 300,
           nextIndex = [(0, 0), (1, 0), (2, 0), (3, 0), (4, 0)], matchIndex = [(0, 0), (1, 0), (2, 0), (3, 0), (4, 0)], heartbeatTimer = 50 \<rparr>,
          \<lparr> nid = 1, state = CRASHED, currentTerm = 0, votedFor = None,
           nlog = [],
           commitIndex = -1, electionTimeout = 300, currentTimeoutDuration = 300,
           nextIndex = [], matchIndex = [], heartbeatTimer = 0 \<rparr>,
          \<lparr> nid = 2, state = CRASHED, currentTerm = 0, votedFor = None,
           nlog = [],
           commitIndex = -1, electionTimeout = 300, currentTimeoutDuration = 300,
           nextIndex = [], matchIndex = [], heartbeatTimer = 0 \<rparr>,
          \<lparr> nid = 3, state = FOLLOWER, currentTerm = 1, votedFor = Some 0,
           nlog = [],
           commitIndex = -1, electionTimeout = 232, currentTimeoutDuration = 300,
           nextIndex = [], matchIndex = [], heartbeatTimer = 0 \<rparr>,
          \<lparr> nid = 4, state = FOLLOWER, currentTerm = 1, votedFor = Some 0,
           nlog = [],
           commitIndex = -1, electionTimeout = 232, currentTimeoutDuration = 300,
           nextIndex = [], matchIndex = [], heartbeatTimer = 0 \<rparr>],
       packets =
         [\<lparr> pfrom = 0, pto = 3,
             payload = APPEND_ENTRIES \<lparr> ae_term = 1, leaderId = 0, prevLogIndex = 0, prevLogTerm = -1,
               entries = [], leaderCommit = -1 \<rparr>,
             progress = 0, speed = 15 / 2 \<rparr>,
          \<lparr> pfrom = 0, pto = 4,
             payload = APPEND_ENTRIES \<lparr> ae_term = 1, leaderId = 0, prevLogIndex = 0, prevLogTerm = -1,
               entries = [], leaderCommit = -1 \<rparr>,
             progress = 0, speed = 15 / 2 \<rparr>],
       votesReceived = (\<lambda>_. {}) \<rparr>"

definition ledBy1 :: SimState where
  "ledBy1 =
     \<lparr> nodes =
         [\<lparr> nid = 0, state = CRASHED, currentTerm = 1, votedFor = Some 0,
           nlog = [\<lparr> entry_term = 1, command = ''SET X=5'' \<rparr>],
           commitIndex = -1, electionTimeout = 220, currentTimeoutDuration = 300,
           nextIndex = [(0, 0), (1, 0), (2, 0), (3, 0), (4, 0)], matchIndex = [(0, 0), (1, 0), (2, 0), (3, 0), (4, 0)], heartbeatTimer = 50 \<rparr>,
          \<lparr> nid = 1, state = LEADER, currentTerm = 1, votedFor = Some 1,
           nlog = [],
           commitIndex = -1, electionTimeout = 120, currentTimeoutDuration = 200,
           nextIndex = [(0, 0), (1, 0), (2, 0), (3, 0), (4, 0)], matchIndex = [(0, 0), (1, 0), (2, 0), (3, 0), (4, 0)], heartbeatTimer = 50 \<rparr>,
          \<lparr> nid = 2, state = CRASHED, currentTerm = 0, votedFor = None,
           nlog = [],
           commitIndex = -1, electionTimeout = 300, currentTimeoutDuration = 300,
           nextIndex = [], matchIndex = [], heartbeatTimer = 0 \<rparr>,
          \<lparr> nid = 3, state = FOLLOWER, currentTerm = 1, votedFor = Some 1,
           nlog = [],
           commitIndex = -1, electionTimeout = 232, currentTimeoutDuration = 300,
           nextIndex = [], matchIndex = [], heartbeatTimer = 0 \<rparr>,
          \<lparr> nid = 4, state = FOLLOWER, currentTerm = 1, votedFor = Some 1,
           nlog = [],
           commitIndex = -1, electionTimeout = 232, currentTimeoutDuration = 300,
           nextIndex = [], matchIndex = [], heartbeatTimer = 0 \<rparr>],
       packets =
         [\<lparr> pfrom = 1, pto = 3,
             payload = APPEND_ENTRIES \<lparr> ae_term = 1, leaderId = 1, prevLogIndex = 0, prevLogTerm = -1,
               entries = [], leaderCommit = -1 \<rparr>,
             progress = 0, speed = 15 / 2 \<rparr>,
          \<lparr> pfrom = 1, pto = 4,
             payload = APPEND_ENTRIES \<lparr> ae_term = 1, leaderId = 1, prevLogIndex = 0, prevLogTerm = -1,
               entries = [], leaderCommit = -1 \<rparr>,
             progress = 0, speed = 15 / 2 \<rparr>],
       votesReceived = (\<lambda>_. {}) \<rparr>"

definition ledBy2 :: SimState where
  "ledBy2 =
     \<lparr> nodes =
         [\<lparr> nid = 0, state = CRASHED, currentTerm = 1, votedFor = Some 0,
           nlog = [\<lparr> entry_term = 1, command = ''SET X=5'' \<rparr>],
           commitIndex = -1, electionTimeout = 220, currentTimeoutDuration = 300,
           nextIndex = [(0, 0), (1, 0), (2, 0), (3, 0), (4, 0)], matchIndex = [(0, 0), (1, 0), (2, 0), (3, 0), (4, 0)], heartbeatTimer = 50 \<rparr>,
          \<lparr> nid = 1, state = CRASHED, currentTerm = 1, votedFor = Some 1,
           nlog = [\<lparr> entry_term = 1, command = ''ADD USER'' \<rparr>],
           commitIndex = -1, electionTimeout = 120, currentTimeoutDuration = 200,
           nextIndex = [(0, 0), (1, 0), (2, 0), (3, 0), (4, 0)], matchIndex = [(0, 0), (1, 0), (2, 0), (3, 0), (4, 0)], heartbeatTimer = 50 \<rparr>,
          \<lparr> nid = 2, state = LEADER, currentTerm = 1, votedFor = Some 2,
           nlog = [],
           commitIndex = -1, electionTimeout = 220, currentTimeoutDuration = 300,
           nextIndex = [(0, 0), (1, 0), (2, 0), (3, 0), (4, 0)], matchIndex = [(0, 0), (1, 0), (2, 0), (3, 0), (4, 0)], heartbeatTimer = 50 \<rparr>,
          \<lparr> nid = 3, state = FOLLOWER, currentTerm = 1, votedFor = Some 2,
           nlog = [],
           commitIndex = -1, electionTimeout = 232, currentTimeoutDuration = 300,
           nextIndex = [], matchIndex = [], heartbeatTimer = 0 \<rparr>,
          \<lparr> nid = 4, state = FOLLOWER, currentTerm = 1, votedFor = Some 2,
           nlog = [],
           commitIndex = -1, electionTimeout = 232, currentTimeoutDuration = 300,
           nextIndex = [], matchIndex = [], heartbeatTimer = 0 \<rparr>],
       packets =
         [\<lparr> pfrom = 2, pto = 3,
             payload = APPEND_ENTRIES \<lparr> ae_term = 1, leaderId = 2, prevLogIndex = 0, prevLogTerm = -1,
               entries = [], leaderCommit = -1 \<rparr>,
             progress = 0, speed = 15 / 2 \<rparr>,
          \<lparr> pfrom = 2, pto = 4,
             payload = APPEND_ENTRIES \<lparr> ae_term = 1, leaderId = 2, prevLogIndex = 0, prevLogTerm = -1,
               entries = [], leaderCommit = -1 \<rparr>,
             progress = 0, speed = 15 / 2 \<rparr>],
       votesReceived = (\<lambda>_. {}) \<rparr>"

definition term2LedBy2 :: SimState where
  "term2LedBy2 =
     \<lparr> nodes =
         [\<lparr> nid = 0, state = CRASHED, currentTerm = 1, votedFor = Some 0,
           nlog = [\<lparr> entry_term = 1, command = ''SET X=5'' \<rparr>],
           commitIndex = -1, electionTimeout = 220, currentTimeoutDuration = 300,
           nextIndex = [(0, 0), (1, 0), (2, 0), (3, 0), (4, 0)], matchIndex = [(0, 0), (1, 0), (2, 0), (3, 0), (4, 0)], heartbeatTimer = 50 \<rparr>,
          \<lparr> nid = 1, state = FOLLOWER, currentTerm = 2, votedFor = Some 2,
           nlog = [\<lparr> entry_term = 1, command = ''ADD USER'' \<rparr>, \<lparr> entry_term = 1, command = ''INC Y'' \<rparr>, \<lparr> entry_term = 1, command = ''MOV A->B'' \<rparr>],
           commitIndex = -1, electionTimeout = 132, currentTimeoutDuration = 200,
           nextIndex = [(0, 0), (1, 0), (2, 0), (3, 0), (4, 0)], matchIndex = [(0, 0), (1, 0), (2, 0), (3, 0), (4, 0)], heartbeatTimer = 50 \<rparr>,
          \<lparr> nid = 2, state = LEADER, currentTerm = 2, votedFor = Some 2,
           nlog = [\<lparr> entry_term = 1, command = ''DEL DB'' \<rparr>, \<lparr> entry_term = 1, command = ''INC Y'' \<rparr>, \<lparr> entry_term = 1, command = ''MOV A->B'' \<rparr>],
           commitIndex = -1, electionTimeout = 220, currentTimeoutDuration = 300,
           nextIndex = [(0, 3), (1, 3), (2, 3), (3, 3), (4, 3)], matchIndex = [(0, 0), (1, 0), (2, 0), (3, 0), (4, 0)], heartbeatTimer = 50 \<rparr>,
          \<lparr> nid = 3, state = FOLLOWER, currentTerm = 2, votedFor = Some 2,
           nlog = [],
           commitIndex = -1, electionTimeout = 232, currentTimeoutDuration = 300,
           nextIndex = [], matchIndex = [], heartbeatTimer = 0 \<rparr>,
          \<lparr> nid = 4, state = FOLLOWER, currentTerm = 2, votedFor = Some 2,
           nlog = [],
           commitIndex = -1, electionTimeout = 232, currentTimeoutDuration = 300,
           nextIndex = [], matchIndex = [], heartbeatTimer = 0 \<rparr>],
       packets =
         [\<lparr> pfrom = 2, pto = 1,
             payload = APPEND_ENTRIES \<lparr> ae_term = 2, leaderId = 2, prevLogIndex = 2, prevLogTerm = 1,
               entries = [], leaderCommit = -1 \<rparr>,
             progress = 0, speed = 15 / 2 \<rparr>,
          \<lparr> pfrom = 2, pto = 3,
             payload = APPEND_ENTRIES \<lparr> ae_term = 2, leaderId = 2, prevLogIndex = 2, prevLogTerm = 1,
               entries = [], leaderCommit = -1 \<rparr>,
             progress = 0, speed = 15 / 2 \<rparr>,
          \<lparr> pfrom = 2, pto = 4,
             payload = APPEND_ENTRIES \<lparr> ae_term = 2, leaderId = 2, prevLogIndex = 2, prevLogTerm = 1,
               entries = [], leaderCommit = -1 \<rparr>,
             progress = 0, speed = 15 / 2 \<rparr>],
       votesReceived = (\<lambda>_. {}) \<rparr>"

definition term2LedBy0 :: SimState where
  "term2LedBy0 =
     \<lparr> nodes =
         [\<lparr> nid = 0, state = LEADER, currentTerm = 2, votedFor = Some 0,
           nlog = [\<lparr> entry_term = 1, command = ''SET X=5'' \<rparr>],
           commitIndex = -1, electionTimeout = 220, currentTimeoutDuration = 300,
           nextIndex = [(0, 1), (1, 1), (2, 1), (3, 1), (4, 1)], matchIndex = [(0, 0), (1, 0), (2, 0), (3, 0), (4, 0)], heartbeatTimer = 50 \<rparr>,
          \<lparr> nid = 1, state = FOLLOWER, currentTerm = 2, votedFor = None,
           nlog = [\<lparr> entry_term = 1, command = ''ADD USER'' \<rparr>, \<lparr> entry_term = 1, command = ''INC Y'' \<rparr>, \<lparr> entry_term = 1, command = ''MOV A->B'' \<rparr>, \<lparr> entry_term = 2, command = ''SET X=5'' \<rparr>],
           commitIndex = -1, electionTimeout = 85, currentTimeoutDuration = 200,
           nextIndex = [(0, 0), (1, 0), (2, 0), (3, 0), (4, 0)], matchIndex = [(0, 0), (1, 0), (2, 0), (3, 0), (4, 0)], heartbeatTimer = 50 \<rparr>,
          \<lparr> nid = 2, state = FOLLOWER, currentTerm = 2, votedFor = Some 2,
           nlog = [\<lparr> entry_term = 1, command = ''DEL DB'' \<rparr>, \<lparr> entry_term = 1, command = ''INC Y'' \<rparr>, \<lparr> entry_term = 1, command = ''MOV A->B'' \<rparr>, \<lparr> entry_term = 2, command = ''SET X=5'' \<rparr>],
           commitIndex = -1, electionTimeout = 299, currentTimeoutDuration = 300,
           nextIndex = [(0, 3), (1, 3), (2, 3), (3, 3), (4, 3)], matchIndex = [(0, 0), (1, 0), (2, 0), (3, 0), (4, 0)], heartbeatTimer = 50 \<rparr>,
          \<lparr> nid = 3, state = FOLLOWER, currentTerm = 2, votedFor = Some 0,
           nlog = [],
           commitIndex = -1, electionTimeout = 232, currentTimeoutDuration = 300,
           nextIndex = [], matchIndex = [], heartbeatTimer = 0 \<rparr>,
          \<lparr> nid = 4, state = FOLLOWER, currentTerm = 2, votedFor = Some 0,
           nlog = [],
           commitIndex = -1, electionTimeout = 232, currentTimeoutDuration = 300,
           nextIndex = [], matchIndex = [], heartbeatTimer = 0 \<rparr>],
       packets =
         [\<lparr> pfrom = 0, pto = 1,
             payload = APPEND_ENTRIES \<lparr> ae_term = 2, leaderId = 0, prevLogIndex = 0, prevLogTerm = 1,
               entries = [], leaderCommit = -1 \<rparr>,
             progress = 0, speed = 3 \<rparr>,
          \<lparr> pfrom = 0, pto = 2,
             payload = APPEND_ENTRIES \<lparr> ae_term = 2, leaderId = 0, prevLogIndex = 0, prevLogTerm = 1,
               entries = [], leaderCommit = -1 \<rparr>,
             progress = 0, speed = 3 \<rparr>,
          \<lparr> pfrom = 0, pto = 3,
             payload = APPEND_ENTRIES \<lparr> ae_term = 2, leaderId = 0, prevLogIndex = 0, prevLogTerm = 1,
               entries = [], leaderCommit = -1 \<rparr>,
             progress = 0, speed = 3 \<rparr>,
          \<lparr> pfrom = 0, pto = 4,
             payload = APPEND_ENTRIES \<lparr> ae_term = 2, leaderId = 0, prevLogIndex = 0, prevLogTerm = 1,
               entries = [], leaderCommit = -1 \<rparr>,
             progress = 0, speed = 3 \<rparr>],
       votesReceived = (\<lambda>_. {}) \<rparr>"

definition committed2 :: SimState where
  "committed2 =
     \<lparr> nodes =
         [\<lparr> nid = 0, state = LEADER, currentTerm = 2, votedFor = Some 0,
           nlog = [\<lparr> entry_term = 1, command = ''SET X=5'' \<rparr>, \<lparr> entry_term = 2, command = ''ADD USER'' \<rparr>, \<lparr> entry_term = 2, command = ''DEL DB'' \<rparr>],
           commitIndex = 2, electionTimeout = 220, currentTimeoutDuration = 300,
           nextIndex = [(0, 1), (1, 4), (2, 4), (3, 0), (4, 0)], matchIndex = [(0, 0), (1, 3), (2, 3), (3, 0), (4, 0)], heartbeatTimer = 49 \<rparr>,
          \<lparr> nid = 1, state = FOLLOWER, currentTerm = 2, votedFor = None,
           nlog = [\<lparr> entry_term = 1, command = ''ADD USER'' \<rparr>, \<lparr> entry_term = 1, command = ''INC Y'' \<rparr>, \<lparr> entry_term = 1, command = ''MOV A->B'' \<rparr>, \<lparr> entry_term = 2, command = ''SET X=5'' \<rparr>],
           commitIndex = -1, electionTimeout = 182, currentTimeoutDuration = 200,
           nextIndex = [(0, 0), (1, 0), (2, 0), (3, 0), (4, 0)], matchIndex = [(0, 0), (1, 0), (2, 0), (3, 0), (4, 0)], heartbeatTimer = 50 \<rparr>,
          \<lparr> nid = 2, state = FOLLOWER, currentTerm = 2, votedFor = None,
           nlog = [\<lparr> entry_term = 1, command = ''DEL DB'' \<rparr>, \<lparr> entry_term = 1, command = ''INC Y'' \<rparr>, \<lparr> entry_term = 1, command = ''MOV A->B'' \<rparr>, \<lparr> entry_term = 2, command = ''SET X=5'' \<rparr>],
           commitIndex = -1, electionTimeout = 282, currentTimeoutDuration = 300,
           nextIndex = [(0, 3), (1, 3), (2, 3), (3, 3), (4, 3)], matchIndex = [(0, 0), (1, 0), (2, 0), (3, 0), (4, 0)], heartbeatTimer = 50 \<rparr>,
          \<lparr> nid = 3, state = FOLLOWER, currentTerm = 2, votedFor = None,
           nlog = [],
           commitIndex = -1, electionTimeout = 282, currentTimeoutDuration = 300,
           nextIndex = [], matchIndex = [], heartbeatTimer = 0 \<rparr>,
          \<lparr> nid = 4, state = FOLLOWER, currentTerm = 2, votedFor = None,
           nlog = [],
           commitIndex = -1, electionTimeout = 282, currentTimeoutDuration = 300,
           nextIndex = [], matchIndex = [], heartbeatTimer = 0 \<rparr>],
       packets =
         [\<lparr> pfrom = 1, pto = 0,
             payload = APPEND_RESPONSE \<lparr> ar_term = 2, success = True, ar_matchIndex = 3 \<rparr>,
             progress = 51 / 2, speed = 3 / 2 \<rparr>,
          \<lparr> pfrom = 2, pto = 0,
             payload = APPEND_RESPONSE \<lparr> ar_term = 2, success = True, ar_matchIndex = 3 \<rparr>,
             progress = 51 / 2, speed = 3 / 2 \<rparr>,
          \<lparr> pfrom = 3, pto = 0,
             payload = APPEND_RESPONSE \<lparr> ar_term = 2, success = False, ar_matchIndex = -1 \<rparr>,
             progress = 51 / 2, speed = 3 / 2 \<rparr>,
          \<lparr> pfrom = 4, pto = 0,
             payload = APPEND_RESPONSE \<lparr> ar_term = 2, success = False, ar_matchIndex = -1 \<rparr>,
             progress = 51 / 2, speed = 3 / 2 \<rparr>,
          \<lparr> pfrom = 0, pto = 1,
             payload = APPEND_ENTRIES \<lparr> ae_term = 2, leaderId = 0, prevLogIndex = 0, prevLogTerm = 1,
               entries = [\<lparr> entry_term = 2, command = ''ADD USER'' \<rparr>], leaderCommit = -1 \<rparr>,
             progress = 3 / 4, speed = 3 / 4 \<rparr>,
          \<lparr> pfrom = 0, pto = 2,
             payload = APPEND_ENTRIES \<lparr> ae_term = 2, leaderId = 0, prevLogIndex = 0, prevLogTerm = 1,
               entries = [\<lparr> entry_term = 2, command = ''ADD USER'' \<rparr>], leaderCommit = -1 \<rparr>,
             progress = 3 / 4, speed = 3 / 4 \<rparr>,
          \<lparr> pfrom = 0, pto = 3,
             payload = APPEND_ENTRIES \<lparr> ae_term = 2, leaderId = 0, prevLogIndex = 0, prevLogTerm = 1,
               entries = [\<lparr> entry_term = 2, command = ''ADD USER'' \<rparr>], leaderCommit = -1 \<rparr>,
             progress = 3 / 4, speed = 3 / 4 \<rparr>,
          \<lparr> pfrom = 0, pto = 4,
             payload = APPEND_ENTRIES \<lparr> ae_term = 2, leaderId = 0, prevLogIndex = 0, prevLogTerm = 1,
               entries = [\<lparr> entry_term = 2, command = ''ADD USER'' \<rparr>], leaderCommit = -1 \<rparr>,
             progress = 3 / 4, speed = 3 / 4 \<rparr>],
       votesReceived = (\<lambda>_. {}) \<rparr>"

definition truncated :: SimState where
  "truncated =
     \<lparr> nodes =
         [\<lparr> nid = 0, state = CRASHED, currentTerm = 2, votedFor = Some 0,
           nlog = [\<lparr> entry_term = 1, command = ''SET X=5'' \<rparr>, \<lparr> entry_term = 2, command = ''ADD USER'' \<rparr>, \<lparr> entry_term = 2, command = ''DEL DB'' \<rparr>, \<lparr> entry_term = 2, command = ''INC Y'' \<rparr>],
           commitIndex = 3, electionTimeout = 220, currentTimeoutDuration = 300,
           nextIndex = [(0, 1), (1, 4), (2, 4), (3, 0), (4, 0)], matchIndex = [(0, 0), (1, 3), (2, 3), (3, 0), (4, 0)], heartbeatTimer = 50 \<rparr>,
          \<lparr> nid = 1, state = FOLLOWER, currentTerm = 2, votedFor = None,
           nlog = [\<lparr> entry_term = 1, command = ''ADD USER'' \<rparr>, \<lparr> entry_term = 2, command = ''ADD USER'' \<rparr>],
           commitIndex = 3, electionTimeout = 199, currentTimeoutDuration = 200,
           nextIndex = [(0, 0), (1, 0), (2, 0), (3, 0), (4, 0)], matchIndex = [(0, 0), (1, 0), (2, 0), (3, 0), (4, 0)], heartbeatTimer = 50 \<rparr>,
          \<lparr> nid = 2, state = FOLLOWER, currentTerm = 2, votedFor = None,
           nlog = [\<lparr> entry_term = 1, command = ''DEL DB'' \<rparr>, \<lparr> entry_term = 2, command = ''ADD USER'' \<rparr>],
           commitIndex = 2, electionTimeout = 299, currentTimeoutDuration = 300,
           nextIndex = [(0, 3), (1, 3), (2, 3), (3, 3), (4, 3)], matchIndex = [(0, 0), (1, 0), (2, 0), (3, 0), (4, 0)], heartbeatTimer = 50 \<rparr>,
          \<lparr> nid = 3, state = FOLLOWER, currentTerm = 2, votedFor = None,
           nlog = [],
           commitIndex = -1, electionTimeout = 299, currentTimeoutDuration = 300,
           nextIndex = [], matchIndex = [], heartbeatTimer = 0 \<rparr>,
          \<lparr> nid = 4, state = FOLLOWER, currentTerm = 2, votedFor = None,
           nlog = [],
           commitIndex = -1, electionTimeout = 299, currentTimeoutDuration = 300,
           nextIndex = [], matchIndex = [], heartbeatTimer = 0 \<rparr>],
       packets =
         [\<lparr> pfrom = 1, pto = 0,
             payload = APPEND_RESPONSE \<lparr> ar_term = 2, success = True, ar_matchIndex = 3 \<rparr>,
             progress = 30, speed = 3 / 2 \<rparr>,
          \<lparr> pfrom = 3, pto = 0,
             payload = APPEND_RESPONSE \<lparr> ar_term = 2, success = False, ar_matchIndex = -1 \<rparr>,
             progress = 30, speed = 3 / 2 \<rparr>,
          \<lparr> pfrom = 4, pto = 0,
             payload = APPEND_RESPONSE \<lparr> ar_term = 2, success = False, ar_matchIndex = -1 \<rparr>,
             progress = 30, speed = 3 / 2 \<rparr>,
          \<lparr> pfrom = 1, pto = 0,
             payload = APPEND_RESPONSE \<lparr> ar_term = 2, success = True, ar_matchIndex = 1 \<rparr>,
             progress = 0, speed = 3 / 2 \<rparr>,
          \<lparr> pfrom = 2, pto = 0,
             payload = APPEND_RESPONSE \<lparr> ar_term = 2, success = True, ar_matchIndex = 1 \<rparr>,
             progress = 0, speed = 3 / 2 \<rparr>,
          \<lparr> pfrom = 3, pto = 0,
             payload = APPEND_RESPONSE \<lparr> ar_term = 2, success = False, ar_matchIndex = -1 \<rparr>,
             progress = 0, speed = 3 / 2 \<rparr>,
          \<lparr> pfrom = 4, pto = 0,
             payload = APPEND_RESPONSE \<lparr> ar_term = 2, success = False, ar_matchIndex = -1 \<rparr>,
             progress = 0, speed = 3 / 2 \<rparr>],
       votesReceived = (\<lambda>_. {}) \<rparr>"

definition beforeDecrease :: SimState where
  "beforeDecrease =
     \<lparr> nodes =
         [\<lparr> nid = 0, state = CRASHED, currentTerm = 2, votedFor = Some 0,
           nlog = [\<lparr> entry_term = 1, command = ''SET X=5'' \<rparr>, \<lparr> entry_term = 2, command = ''ADD USER'' \<rparr>, \<lparr> entry_term = 2, command = ''DEL DB'' \<rparr>, \<lparr> entry_term = 2, command = ''INC Y'' \<rparr>],
           commitIndex = 3, electionTimeout = 220, currentTimeoutDuration = 300,
           nextIndex = [(0, 1), (1, 4), (2, 4), (3, 0), (4, 0)], matchIndex = [(0, 0), (1, 3), (2, 3), (3, 0), (4, 0)], heartbeatTimer = 50 \<rparr>,
          \<lparr> nid = 1, state = LEADER, currentTerm = 3, votedFor = Some 1,
           nlog = [\<lparr> entry_term = 1, command = ''ADD USER'' \<rparr>, \<lparr> entry_term = 2, command = ''ADD USER'' \<rparr>],
           commitIndex = 3, electionTimeout = 120, currentTimeoutDuration = 200,
           nextIndex = [(0, 2), (1, 2), (2, 2), (3, 2), (4, 2)], matchIndex = [(0, 0), (1, 0), (2, 0), (3, 0), (4, 0)], heartbeatTimer = 37 \<rparr>,
          \<lparr> nid = 2, state = FOLLOWER, currentTerm = 3, votedFor = Some 1,
           nlog = [\<lparr> entry_term = 1, command = ''DEL DB'' \<rparr>, \<lparr> entry_term = 2, command = ''ADD USER'' \<rparr>],
           commitIndex = 2, electionTimeout = 219, currentTimeoutDuration = 300,
           nextIndex = [(0, 3), (1, 3), (2, 3), (3, 3), (4, 3)], matchIndex = [(0, 0), (1, 0), (2, 0), (3, 0), (4, 0)], heartbeatTimer = 50 \<rparr>,
          \<lparr> nid = 3, state = FOLLOWER, currentTerm = 3, votedFor = Some 1,
           nlog = [],
           commitIndex = -1, electionTimeout = 219, currentTimeoutDuration = 300,
           nextIndex = [], matchIndex = [], heartbeatTimer = 0 \<rparr>,
          \<lparr> nid = 4, state = FOLLOWER, currentTerm = 3, votedFor = Some 1,
           nlog = [],
           commitIndex = -1, electionTimeout = 219, currentTimeoutDuration = 300,
           nextIndex = [], matchIndex = [], heartbeatTimer = 0 \<rparr>],
       packets =
         [\<lparr> pfrom = 1, pto = 2,
             payload = APPEND_ENTRIES \<lparr> ae_term = 3, leaderId = 1, prevLogIndex = 1, prevLogTerm = 2,
               entries = [], leaderCommit = 3 \<rparr>,
             progress = 195 / 2, speed = 15 / 2 \<rparr>,
          \<lparr> pfrom = 1, pto = 3,
             payload = APPEND_ENTRIES \<lparr> ae_term = 3, leaderId = 1, prevLogIndex = 1, prevLogTerm = 2,
               entries = [], leaderCommit = 3 \<rparr>,
             progress = 195 / 2, speed = 15 / 2 \<rparr>,
          \<lparr> pfrom = 1, pto = 4,
             payload = APPEND_ENTRIES \<lparr> ae_term = 3, leaderId = 1, prevLogIndex = 1, prevLogTerm = 2,
               entries = [], leaderCommit = 3 \<rparr>,
             progress = 195 / 2, speed = 15 / 2 \<rparr>],
       votesReceived = (\<lambda>_. {}) \<rparr>"

definition afterDecrease :: SimState where
  "afterDecrease =
     \<lparr> nodes =
         [\<lparr> nid = 0, state = CRASHED, currentTerm = 2, votedFor = Some 0,
           nlog = [\<lparr> entry_term = 1, command = ''SET X=5'' \<rparr>, \<lparr> entry_term = 2, command = ''ADD USER'' \<rparr>, \<lparr> entry_term = 2, command = ''DEL DB'' \<rparr>, \<lparr> entry_term = 2, command = ''INC Y'' \<rparr>],
           commitIndex = 3, electionTimeout = 220, currentTimeoutDuration = 300,
           nextIndex = [(0, 1), (1, 4), (2, 4), (3, 0), (4, 0)], matchIndex = [(0, 0), (1, 3), (2, 3), (3, 0), (4, 0)], heartbeatTimer = 50 \<rparr>,
          \<lparr> nid = 1, state = LEADER, currentTerm = 3, votedFor = Some 1,
           nlog = [\<lparr> entry_term = 1, command = ''ADD USER'' \<rparr>, \<lparr> entry_term = 2, command = ''ADD USER'' \<rparr>],
           commitIndex = 3, electionTimeout = 120, currentTimeoutDuration = 200,
           nextIndex = [(0, 2), (1, 2), (2, 2), (3, 2), (4, 2)], matchIndex = [(0, 0), (1, 0), (2, 0), (3, 0), (4, 0)], heartbeatTimer = 36 \<rparr>,
          \<lparr> nid = 2, state = FOLLOWER, currentTerm = 3, votedFor = None,
           nlog = [\<lparr> entry_term = 1, command = ''DEL DB'' \<rparr>, \<lparr> entry_term = 2, command = ''ADD USER'' \<rparr>],
           commitIndex = 1, electionTimeout = 299, currentTimeoutDuration = 300,
           nextIndex = [(0, 3), (1, 3), (2, 3), (3, 3), (4, 3)], matchIndex = [(0, 0), (1, 0), (2, 0), (3, 0), (4, 0)], heartbeatTimer = 50 \<rparr>,
          \<lparr> nid = 3, state = FOLLOWER, currentTerm = 3, votedFor = None,
           nlog = [],
           commitIndex = -1, electionTimeout = 299, currentTimeoutDuration = 300,
           nextIndex = [], matchIndex = [], heartbeatTimer = 0 \<rparr>,
          \<lparr> nid = 4, state = FOLLOWER, currentTerm = 3, votedFor = None,
           nlog = [],
           commitIndex = -1, electionTimeout = 299, currentTimeoutDuration = 300,
           nextIndex = [], matchIndex = [], heartbeatTimer = 0 \<rparr>],
       packets =
         [\<lparr> pfrom = 2, pto = 1,
             payload = APPEND_RESPONSE \<lparr> ar_term = 3, success = True, ar_matchIndex = 1 \<rparr>,
             progress = 0, speed = 3 / 2 \<rparr>,
          \<lparr> pfrom = 3, pto = 1,
             payload = APPEND_RESPONSE \<lparr> ar_term = 3, success = False, ar_matchIndex = -1 \<rparr>,
             progress = 0, speed = 3 / 2 \<rparr>,
          \<lparr> pfrom = 4, pto = 1,
             payload = APPEND_RESPONSE \<lparr> ar_term = 3, success = False, ar_matchIndex = -1 \<rparr>,
             progress = 0, speed = 3 / 2 \<rparr>],
       votesReceived = (\<lambda>_. {}) \<rparr>"

text \<open>
  The pieces of the schedule, each leading from one of these states to the next, the first
  from the initial cluster.
\<close>

definition to_ledBy0 :: "action list" where
  "to_ledBy0 =
     [Toggle 1 300,
      Toggle 2 300,
      Ticks 150 (5) draws,
      Ticks 14 (5) draws,
      Ticks 67 (5) draws]"

definition to_ledBy1 :: "action list" where
  "to_ledBy1 =
     [Propose ''SET X=5'',
      Toggle 0 300,
      Toggle 1 150,
      Ticks 14 (5) draws,
      Ticks 67 (5) draws,
      Ticks 69 (5) draws,
      Ticks 14 (5) draws,
      Ticks 67 (5) draws]"

definition to_ledBy2 :: "action list" where
  "to_ledBy2 =
     [Propose ''ADD USER'',
      Toggle 1 300,
      Toggle 2 150,
      Ticks 14 (5) draws,
      Ticks 67 (5) draws,
      Ticks 69 (5) draws,
      Ticks 14 (5) draws,
      Ticks 67 (5) draws]"

definition to_term2LedBy2 :: "action list" where
  "to_term2LedBy2 =
     [Propose ''DEL DB'',
      Propose ''INC Y'',
      Propose ''MOV A->B'',
      Toggle 1 300,
      Ticks 14 (5) draws,
      Ticks 36 (5) draws,
      Toggle 2 300,
      Toggle 2 150,
      Ticks 14 (5) draws,
      Ticks 17 (5) draws,
      Ticks 50 (5) draws,
      Ticks 69 (5) draws,
      Ticks 14 (5) draws,
      Ticks 67 (5) draws]"

definition to_term2LedBy0 :: "action list" where
  "to_term2LedBy0 =
     [Propose ''SET X=5'',
      Ticks 14 (5) draws,
      Ticks 36 (5) draws,
      Toggle 2 300,
      Toggle 0 150,
      Ticks 14 (5) draws,
      Ticks 2 (5) draws,
      Toggle 1 300,
      Toggle 1 300,
      Ticks 15 (5) draws,
      Ticks 50 (5) draws,
      Ticks 69 (5) draws,
      Ticks 14 (5) draws,
      Ticks 66 (5) draws,
      Toggle 2 300,
      Ticks 1 (2) draws]"

definition to_committed2 :: "action list" where
  "to_committed2 =
     [Ticks 34 (2) draws,
      Ticks 16 (2) draws,
      Propose ''ADD USER'',
      Ticks 34 (1 / 2) draws,
      Ticks 16 (1 / 2) draws,
      Propose ''DEL DB'',
      Ticks 1 (5) draws]"

definition to_truncated :: "action list" where
  "to_truncated =
     [Propose ''INC Y'',
      Ticks 49 (5) draws,
      Ticks 1 (5) draws,
      Ticks 13 (5) draws,
      Ticks 35 (5) draws,
      Toggle 2 300,
      Ticks 1 (5) draws,
      Toggle 2 300,
      Toggle 0 300,
      Ticks 14 (5) draws,
      Ticks 17 (5) draws,
      Ticks 3 (5) draws]"

definition to_beforeDecrease :: "action list" where
  "to_beforeDecrease =
     [Ticks 47 (5) draws,
      Ticks 20 (5) draws,
      Ticks 132 (5) draws,
      Ticks 14 (5) draws,
      Ticks 67 (5) draws,
      Ticks 13 (5) draws]"

definition to_afterDecrease :: "action list" where
  "to_afterDecrease =
     [Ticks 1 (5) draws]"

section \<open>RequestVote handler\<close>

lemma adoptTerm_currentTerm: "currentTerm (adoptTerm node t) = max (currentTerm node) t"
  by (simp add: adoptTerm_def)

text \<open>
  C3. For every node and every RequestVote payload. \<open>newer\<close> says that the payload's term
  exceeds the node's; \<open>term1\<close> and \<open>vote1\<close> are the node's term and vote after term
  adoption (a newer term is adopted, the node steps down and its vote is cleared);
  \<open>myLastIndex\<close> and \<open>myLastTerm\<close> are the index and term of the node's last log entry,
  both \<open>-1\<close> for an empty log. The vote is granted exactly when the payload's term is at
  least \<open>term1\<close>, \<open>vote1\<close> is unset or is for this candidate, and the candidate's log is
  at least as up to date (its last term is greater, or the last terms are equal and its last
  index is at least the node's). The handler returns exactly one packet: a VoteResponse from
  the node to the candidate carrying \<open>term1\<close> and the grant flag. Granting sets
  \<open>votedFor\<close> to the candidate and resets \<open>electionTimeout\<close> to
  \<open>currentTimeoutDuration\<close>; not granting leaves the node as term adoption left it. No
  other field changes.
\<close>

theorem processRequestVote_grant:
  fixes node :: RaftNode and p :: RequestVotePayload
  defines "newer \<equiv> currentTerm node < rv_term p"
  defines "term1 \<equiv> (if newer then rv_term p else currentTerm node)"
  defines "vote1 \<equiv> (if newer then None else votedFor node)"
  defines "myLastIndex \<equiv> int (length (nlog node)) - 1"
  defines "myLastTerm \<equiv> (if nlog node = [] then -1 else entry_term (last (nlog node)))"
  defines "granted \<equiv>
     (term1 \<le> rv_term p \<and>
      (vote1 = None \<or> vote1 = Some (candidateId p)) \<and>
      (myLastTerm < lastLogTerm p \<or>
       (lastLogTerm p = myLastTerm \<and> myLastIndex \<le> lastLogIndex p)))"
  shows "processRequestVote node p =
           (node\<lparr> currentTerm := term1,
                  state := (if newer then FOLLOWER else state node),
                  votedFor := (if granted then Some (candidateId p) else vote1),
                  electionTimeout := (if granted then currentTimeoutDuration node
                                      else electionTimeout node) \<rparr>,
            \<lparr> pfrom = nid node, pto = candidateId p,
              payload = VOTE_RESPONSE \<lparr> vr_term = term1, voteGranted = granted \<rparr>,
              progress = 0, speed = PACKET_SPEED \<rparr>)"
proof -
  have "nat (int (length (nlog node)) - 1) = length (nlog node) - 1"
    by (cases "nlog node") simp_all
  then have lt: "lastLogTermOf (nlog node) = myLastTerm"
    by (cases "nlog node = []")
       (simp_all add: lastLogTermOf_def lastLogIndexOf_def myLastTerm_def last_conv_nth)
  have li: "lastLogIndexOf (nlog node) = myLastIndex"
    by (simp add: lastLogIndexOf_def myLastIndex_def)
  show ?thesis
  proof (cases newer)
    case True
    then have a: "adoptTerm node (rv_term p) =
        node\<lparr> currentTerm := rv_term p, state := FOLLOWER, votedFor := None \<rparr>"
      by (simp add: adoptTerm_def newer_def)
    have g: "granted = (myLastTerm < lastLogTerm p \<or>
                 (lastLogTerm p = myLastTerm \<and> myLastIndex \<le> lastLogIndex p))"
      using True by (simp add: granted_def term1_def vote1_def)
    show ?thesis
      unfolding processRequestVote_def Let_def a logIsUpToDate_def
      using True by (cases granted) (simp_all add: lt li g [symmetric] term1_def vote1_def)
  next
    case False
    then have a: "adoptTerm node (rv_term p) = node"
      by (simp add: adoptTerm_def newer_def)
    have g: "granted = (currentTerm node \<le> rv_term p \<and>
                 (votedFor node = None \<or> votedFor node = Some (candidateId p)) \<and>
                 (myLastTerm < lastLogTerm p \<or>
                   (lastLogTerm p = myLastTerm \<and> myLastIndex \<le> lastLogIndex p)))"
      using False by (simp add: granted_def term1_def vote1_def)
    show ?thesis
      unfolding processRequestVote_def Let_def a logIsUpToDate_def
      using False by (cases granted) (simp_all add: lt li g [symmetric] term1_def vote1_def)
  qed
qed

text \<open>
  A candidate of term 2 that voted for itself and holds two entries, the last of term 2.
  A RequestVote of term 3 whose log ends at index 1 with term 2 makes it step down and is
  granted; one of term 3 whose log ends with term 1 makes it step down and is denied (the
  log is behind, whatever its length); one of its own term 2 is denied since the vote is
  taken, and changes nothing.
\<close>

theorem processRequestVote_grant_witness:
  "processRequestVote
     ((createNode 1 200 180)\<lparr> state := CANDIDATE, currentTerm := 2, votedFor := Some 1,
         nlog := [\<lparr> entry_term = 1, command = ''SET X=5'' \<rparr>, \<lparr> entry_term = 2, command = ''INC Y'' \<rparr>] \<rparr>)
     \<lparr> rv_term = 3, candidateId = 0, lastLogIndex = 1, lastLogTerm = 2 \<rparr>
     = ((createNode 1 180 180)\<lparr> state := FOLLOWER, currentTerm := 3, votedFor := Some 0,
         nlog := [\<lparr> entry_term = 1, command = ''SET X=5'' \<rparr>, \<lparr> entry_term = 2, command = ''INC Y'' \<rparr>] \<rparr>,
        \<lparr> pfrom = 1, pto = 0, payload = VOTE_RESPONSE \<lparr> vr_term = 3, voteGranted = True \<rparr>,
          progress = 0, speed = PACKET_SPEED \<rparr>)
   \<and> processRequestVote
     ((createNode 1 200 180)\<lparr> state := CANDIDATE, currentTerm := 2, votedFor := Some 1,
         nlog := [\<lparr> entry_term = 1, command = ''SET X=5'' \<rparr>, \<lparr> entry_term = 2, command = ''INC Y'' \<rparr>] \<rparr>)
     \<lparr> rv_term = 3, candidateId = 0, lastLogIndex = 5, lastLogTerm = 1 \<rparr>
     = ((createNode 1 200 180)\<lparr> state := FOLLOWER, currentTerm := 3, votedFor := None,
         nlog := [\<lparr> entry_term = 1, command = ''SET X=5'' \<rparr>, \<lparr> entry_term = 2, command = ''INC Y'' \<rparr>] \<rparr>,
        \<lparr> pfrom = 1, pto = 0, payload = VOTE_RESPONSE \<lparr> vr_term = 3, voteGranted = False \<rparr>,
          progress = 0, speed = PACKET_SPEED \<rparr>)
   \<and> processRequestVote
     ((createNode 1 200 180)\<lparr> state := CANDIDATE, currentTerm := 2, votedFor := Some 1,
         nlog := [\<lparr> entry_term = 1, command = ''SET X=5'' \<rparr>, \<lparr> entry_term = 2, command = ''INC Y'' \<rparr>] \<rparr>)
     \<lparr> rv_term = 2, candidateId = 0, lastLogIndex = 1, lastLogTerm = 2 \<rparr>
     = ((createNode 1 200 180)\<lparr> state := CANDIDATE, currentTerm := 2, votedFor := Some 1,
         nlog := [\<lparr> entry_term = 1, command = ''SET X=5'' \<rparr>, \<lparr> entry_term = 2, command = ''INC Y'' \<rparr>] \<rparr>,
        \<lparr> pfrom = 1, pto = 0, payload = VOTE_RESPONSE \<lparr> vr_term = 2, voteGranted = False \<rparr>,
          progress = 0, speed = PACKET_SPEED \<rparr>)"
  using processRequestVote_grant [of
     "(createNode 1 200 180)\<lparr> state := CANDIDATE, currentTerm := 2, votedFor := Some 1,
         nlog := [\<lparr> entry_term = 1, command = ''SET X=5'' \<rparr>, \<lparr> entry_term = 2, command = ''INC Y'' \<rparr>] \<rparr>"
     "\<lparr> rv_term = 3, candidateId = 0, lastLogIndex = 1, lastLogTerm = 2 \<rparr>"]
    processRequestVote_grant [of
     "(createNode 1 200 180)\<lparr> state := CANDIDATE, currentTerm := 2, votedFor := Some 1,
         nlog := [\<lparr> entry_term = 1, command = ''SET X=5'' \<rparr>, \<lparr> entry_term = 2, command = ''INC Y'' \<rparr>] \<rparr>"
     "\<lparr> rv_term = 3, candidateId = 0, lastLogIndex = 5, lastLogTerm = 1 \<rparr>"]
    processRequestVote_grant [of
     "(createNode 1 200 180)\<lparr> state := CANDIDATE, currentTerm := 2, votedFor := Some 1,
         nlog := [\<lparr> entry_term = 1, command = ''SET X=5'' \<rparr>, \<lparr> entry_term = 2, command = ''INC Y'' \<rparr>] \<rparr>"
     "\<lparr> rv_term = 2, candidateId = 0, lastLogIndex = 1, lastLogTerm = 2 \<rparr>"]
  by (simp add: createNode_def)

section \<open>AppendEntries handler: stale terms\<close>

text \<open>
  C7. A node whose current term is strictly greater than the term of an incoming
  AppendEntries payload replies \<open>success = false\<close> and is returned unchanged: no field of
  the node is touched, in particular nothing is appended to or truncated from its log.
\<close>

theorem processAppendEntries_stale:
  assumes "ae_term p < currentTerm node"
  shows "processAppendEntries node p =
           Inr (node, \<lparr> pfrom = nid node, pto = leaderId p,
                        payload = APPEND_RESPONSE \<lparr> ar_term = currentTerm node, success = False,
                                                    ar_matchIndex = int (length (nlog node)) - 1 \<rparr>,
                        progress = 0, speed = PACKET_SPEED \<rparr>)"
  using assms by (simp add: processAppendEntries_def heardFrom_def appendReply_def)

theorem processAppendEntries_stale_witness:
  "processAppendEntries ((createNode 1 200 180)\<lparr> currentTerm := 3, nlog := [\<lparr> entry_term = 2, command = ''SET X=5'' \<rparr>] \<rparr>)
      \<lparr> ae_term = 2, leaderId = 0, prevLogIndex = -1, prevLogTerm = -1,
        entries = [\<lparr> entry_term = 1, command = ''INC Y'' \<rparr>], leaderCommit = 0 \<rparr>
   = Inr ((createNode 1 200 180)\<lparr> currentTerm := 3, nlog := [\<lparr> entry_term = 2, command = ''SET X=5'' \<rparr>] \<rparr>,
          \<lparr> pfrom = 1, pto = 0,
            payload = APPEND_RESPONSE \<lparr> ar_term = 3, success = False, ar_matchIndex = 0 \<rparr>,
            progress = 0, speed = PACKET_SPEED \<rparr>)"
  using processAppendEntries_stale [of "\<lparr> ae_term = 2, leaderId = 0, prevLogIndex = -1, prevLogTerm = -1,
        entries = [\<lparr> entry_term = 1, command = ''INC Y'' \<rparr>], leaderCommit = 0 \<rparr>"
        "(createNode 1 200 180)\<lparr> currentTerm := 3, nlog := [\<lparr> entry_term = 2, command = ''SET X=5'' \<rparr>] \<rparr>"]
  by (simp add: createNode_def)

section \<open>Packet speed\<close>

lemma handler_reply_speed:
  "speed (snd (processRequestVote node rv)) = PACKET_SPEED"
  "processAppendEntries node ae = Inr (u, r) \<Longrightarrow> speed r = PACKET_SPEED"
  by (auto simp: processRequestVote_def processAppendEntries_def Let_def appendReply_def
        split: if_splits)

lemma scheduler_packet_speed:
  "q \<in> set (broadcast playbackSpeed sender pl nodesList) \<Longrightarrow> speed q = PACKET_SPEED * playbackSpeed"
  "speed (appendEntriesFor playbackSpeed leader peer) = PACKET_SPEED * playbackSpeed"
  by (auto simp: broadcast_def appendEntriesFor_def Let_def)

text \<open>
  C9. The claim is that every packet has speed \<open>PACKET_SPEED\<close> times the playback
  multiplier. The packets of the scheduler do (\<open>scheduler_packet_speed\<close>); the replies of
  the handlers have speed \<open>PACKET_SPEED\<close> whatever the multiplier is
  (\<open>handler_reply_speed\<close>). At multiplier 2 a VoteResponse travels at 3/2 where the
  RequestVote broadcast of the same tick travels at 3.
\<close>

theorem reply_speed_at_double_playback:
  "speed (snd (processRequestVote (createNode 1 200 180)
        \<lparr> rv_term = 1, candidateId = 0, lastLogIndex = -1, lastLogTerm = -1 \<rparr>)) = 3 / 2
   \<and> PACKET_SPEED * 2 = 3
   \<and> map speed (broadcast 2 (createNode 0 200 180) (requestVoteFor (createNode 0 200 180))
                   [createNode 0 200 180, createNode 1 200 180]) = [3]"
  by (simp add: processRequestVote_def Let_def PACKET_SPEED_def broadcast_def createNode_def)

section \<open>Heartbeats\<close>

lemma appendEntriesFor_nextIndex_pos:
  assumes "map_of (nextIndex leader) peer = Some k" "k > 0"
  shows "payload (appendEntriesFor playbackSpeed leader peer) =
           APPEND_ENTRIES \<lparr> ae_term = currentTerm leader, leaderId = nid leader,
                             prevLogIndex = k - 1,
                             prevLogTerm = (if k - 1 < int (length (nlog leader))
                                            then entry_term (nlog leader ! nat (k - 1)) else -1),
                             entries = drop (nat k) (nlog leader),
                             leaderCommit = commitIndex leader \<rparr>"
  using assms by (auto simp: appendEntriesFor_def orOne_def jsSlice_def Let_def)

lemma appendEntriesFor_nextIndex_zero:
  assumes "map_of (nextIndex leader) peer = Some 0"
  shows "appendEntriesFor playbackSpeed leader peer =
           \<lparr> pfrom = nid leader, pto = peer,
             payload = APPEND_ENTRIES \<lparr> ae_term = currentTerm leader, leaderId = nid leader,
                             prevLogIndex = 0,
                             prevLogTerm = (if nlog leader = [] then -1 else entry_term (nlog leader ! 0)),
                             entries = drop 1 (nlog leader),
                             leaderCommit = commitIndex leader \<rparr>,
             progress = 0, speed = PACKET_SPEED * playbackSpeed \<rparr>"
  using assms by (auto simp: appendEntriesFor_def orOne_def jsSlice_def Let_def)

text \<open>
  C2. The claim is that the heartbeat to peer \<open>p\<close> carries \<open>prevLogIndex = nextIndex[p] - 1\<close>
  and the log from \<open>nextIndex[p]\<close> on for every value of \<open>nextIndex[p]\<close>, 0 included.
  For a positive \<open>nextIndex[p]\<close> it does (\<open>appendEntriesFor_nextIndex_pos\<close>). For
  \<open>nextIndex[p] = 0\<close> the source computes \<open>(nextIndex[p] || 1) - 1\<close>, and 0 is falsy: when
  the leader's heartbeat timer expires, the packet to a live peer with \<open>nextIndex = 0\<close>
  carries \<open>prevLogIndex = 0\<close> (not \<open>-1\<close>), the term of the leader's entry 0 as
  \<open>prevLogTerm\<close>, and the log from position 1 on: entry 0 is never sent.
\<close>

theorem heartbeat_nextIndex_zero:
  assumes "state leader = LEADER" and "heartbeatTimer leader \<le> 1"
    and "peer \<in> set currentNodes" and "nid peer \<noteq> nid leader" and "state peer \<noteq> CRASHED"
    and "map_of (nextIndex leader) (nid peer) = Some 0"
  shows "\<lparr> pfrom = nid leader, pto = nid peer,
           payload = APPEND_ENTRIES \<lparr> ae_term = currentTerm leader, leaderId = nid leader,
                             prevLogIndex = 0,
                             prevLogTerm = (if nlog leader = [] then -1 else entry_term (nlog leader ! 0)),
                             entries = drop 1 (nlog leader),
                             leaderCommit = commitIndex leader \<rparr>,
           progress = 0, speed = PACKET_SPEED * playbackSpeed \<rparr>
         \<in> set (snd (heartbeatStep playbackSpeed currentNodes leader))"
proof -
  let ?l = "leader\<lparr> heartbeatTimer := HEARTBEAT_INTERVAL \<rparr>"
  have "snd (heartbeatStep playbackSpeed currentNodes leader) = heartbeatPackets playbackSpeed ?l currentNodes"
    using assms(1,2) by (simp add: heartbeatStep_def Let_def)
  moreover have "appendEntriesFor playbackSpeed ?l (nid peer) \<in> set (heartbeatPackets playbackSpeed ?l currentNodes)"
    using assms(3,4,5) by (auto simp: heartbeatPackets_def)
  moreover have "map_of (nextIndex ?l) (nid peer) = Some 0"
    using assms(6) by simp
  ultimately show ?thesis
    using appendEntriesFor_nextIndex_zero [of ?l "nid peer" playbackSpeed]
    by (cases "nlog leader = []") simp_all
qed

theorem heartbeat_nextIndex_zero_witness:
  "\<lparr> pfrom = 0, pto = 1,
     payload = APPEND_ENTRIES \<lparr> ae_term = 1, leaderId = 0, prevLogIndex = 0, prevLogTerm = 1,
                                 entries = [], leaderCommit = -1 \<rparr>,
     progress = 0, speed = PACKET_SPEED * 1 \<rparr>
   \<in> set (snd (heartbeatStep 1
         [(createNode 0 200 180)\<lparr> state := LEADER, currentTerm := 1, heartbeatTimer := 1,
              nlog := [\<lparr> entry_term = 1, command = ''SET X=5'' \<rparr>],
              nextIndex := [(0, 0), (1, 0)], matchIndex := [(0, 0), (1, 0)] \<rparr>,
          createNode 1 200 180]
         ((createNode 0 200 180)\<lparr> state := LEADER, currentTerm := 1, heartbeatTimer := 1,
              nlog := [\<lparr> entry_term = 1, command = ''SET X=5'' \<rparr>],
              nextIndex := [(0, 0), (1, 0)], matchIndex := [(0, 0), (1, 0)] \<rparr>)))"
  using heartbeat_nextIndex_zero [of
      "(createNode 0 200 180)\<lparr> state := LEADER, currentTerm := 1, heartbeatTimer := 1,
              nlog := [\<lparr> entry_term = 1, command = ''SET X=5'' \<rparr>],
              nextIndex := [(0, 0), (1, 0)], matchIndex := [(0, 0), (1, 0)] \<rparr>"
      "createNode 1 200 180"
      "[(createNode 0 200 180)\<lparr> state := LEADER, currentTerm := 1, heartbeatTimer := 1,
              nlog := [\<lparr> entry_term = 1, command = ''SET X=5'' \<rparr>],
              nextIndex := [(0, 0), (1, 0)], matchIndex := [(0, 0), (1, 0)] \<rparr>,
          createNode 1 200 180]" 1]
  by (simp add: createNode_def)

section \<open>The crash toggle\<close>

lemma findIndex_None: "findIndex P xs = None \<longleftrightarrow> (\<forall>x \<in> set xs. \<not> P x)"
  by (induction xs) auto

lemma findIndex_Some:
  "findIndex P xs = Some k \<Longrightarrow> k < length xs \<and> P (xs ! k) \<and> (\<forall>j < k. \<not> P (xs ! j))"
proof (induction xs arbitrary: k)
  case Nil
  then show ?case by simp
next
  case (Cons x xs)
  show ?case
  proof (cases "P x")
    case True
    with Cons.prems show ?thesis by simp
  next
    case False
    with Cons.prems obtain k' where k': "findIndex P xs = Some k'" "k = Suc k'" by auto
    from Cons.IH [OF k'(1)] False k'(2) show ?thesis
      by (auto simp: nth_Cons split: nat.splits)
  qed
qed

lemma findIndex_update:
  "findIndex P xs = Some j \<Longrightarrow> P y \<Longrightarrow> findIndex P (xs[j := y]) = Some j"
  by (induction xs arbitrary: j) (auto split: if_splits)

lemma toggleNode_nid: "nid (toggleNode r n) = nid n"
  by (simp add: toggleNode_def)

text \<open>
  C10. \<open>toggleNodeState\<close> leaves the packets and the vote tracker alone and changes, in
  the node list, at most the role and the election timeout of nodes: every node keeps its
  term, vote, log, commit index, \<open>nextIndex\<close>, \<open>matchIndex\<close>, heartbeat timer and
  \<open>currentTimeoutDuration\<close>, after one toggle (\<open>st'\<close>) and after a crash followed by a
  revival (\<open>st''\<close>). The election timeout changes only on revival, to the value drawn; nodes
  with another id are untouched; the node found for a live id is crashed by the first toggle
  and comes back as a follower with the drawn timeout by the second; for an id that no node
  has, the state is unchanged.
\<close>

theorem toggleNodeState_frame:
  fixes st :: SimState and i r r2 :: int
  defines "st' \<equiv> toggleNodeState i r st"
  defines "st'' \<equiv> toggleNodeState i r2 (toggleNodeState i r st)"
  shows "packets st' = packets st \<and> votesReceived st' = votesReceived st
       \<and> length (nodes st') = length (nodes st)
       \<and> (\<forall>k < length (nodes st).
            nodes st' ! k = (nodes st ! k)\<lparr> state := state (nodes st' ! k),
                                             electionTimeout := electionTimeout (nodes st' ! k) \<rparr>
          \<and> (electionTimeout (nodes st' ! k) \<noteq> electionTimeout (nodes st ! k)
               \<longrightarrow> state (nodes st ! k) = CRASHED \<and> state (nodes st' ! k) = FOLLOWER
                   \<and> electionTimeout (nodes st' ! k) = r)
          \<and> (nid (nodes st ! k) \<noteq> i \<longrightarrow> nodes st' ! k = nodes st ! k)
          \<and> nodes st'' ! k = (nodes st ! k)\<lparr> state := state (nodes st'' ! k),
                                              electionTimeout := electionTimeout (nodes st'' ! k) \<rparr>
          \<and> (findIndex (\<lambda>n. nid n = i) (nodes st) = Some k \<and> state (nodes st ! k) \<noteq> CRASHED
               \<longrightarrow> nodes st' ! k = (nodes st ! k)\<lparr> state := CRASHED \<rparr>
                 \<and> nodes st'' ! k = (nodes st ! k)\<lparr> state := FOLLOWER, electionTimeout := r2 \<rparr>))
       \<and> (i \<notin> nid ` set (nodes st) \<longrightarrow> st' = st)"
proof (cases "findIndex (\<lambda>n. nid n = i) (nodes st)")
  case None
  then have "st' = st" "st'' = st" by (simp_all add: st'_def st''_def toggleNodeState_def)
  then show ?thesis using None by simp
next
  case (Some j)
  from findIndex_Some [OF Some] have j: "j < length (nodes st)" "nid (nodes st ! j) = i"
    by auto
  have n': "nodes st' = (nodes st)[j := toggleNode r (nodes st ! j)]"
           "packets st' = packets st" "votesReceived st' = votesReceived st"
    using Some by (simp_all add: st'_def toggleNodeState_def)
  have "findIndex (\<lambda>n. nid n = i) (nodes st') = Some j"
    unfolding n'(1) using Some j by (intro findIndex_update) (simp_all add: toggleNode_nid)
  then have n'': "nodes st'' = (nodes st)[j := toggleNode r2 (toggleNode r (nodes st ! j))]"
    using j n' by (simp add: st''_def st'_def toggleNodeState_def)
  have ex: "i \<in> nid ` set (nodes st)" using j by (metis imageI nth_mem)
  show ?thesis
    using j ex unfolding n'' n'
    by (auto simp: nth_list_update toggleNode_def Some)
qed

lemma initial_nodes:
  "nodes (initialState r1 r2) =
     [createNode 0 (r1 0) (r2 0), createNode 1 (r1 1) (r2 1), createNode 2 (r1 2) (r2 2),
      createNode 3 (r1 3) (r2 3), createNode 4 (r1 4) (r2 4)]"
  by (simp add: initialState_def NODE_COUNT_def upto.simps)

text \<open>
  Node 2 of the initial cluster, crashed and revived with the draw 300: only its election
  timeout differs afterwards, and it exceeds the node's \<open>currentTimeoutDuration\<close> of 150.
  No node has id 7.
\<close>

theorem toggleNodeState_frame_witness:
  "nodes (toggleNodeState 2 300 (toggleNodeState 2 200 (initialState (\<lambda>_. 150) (\<lambda>_. 150)))) ! 2
     = (createNode 2 150 150)\<lparr> state := FOLLOWER, electionTimeout := 300 \<rparr>
   \<and> currentTimeoutDuration
        (nodes (toggleNodeState 2 300 (toggleNodeState 2 200 (initialState (\<lambda>_. 150) (\<lambda>_. 150)))) ! 2) = 150
   \<and> toggleNodeState 7 300 (initialState (\<lambda>_. 150) (\<lambda>_. 150)) = initialState (\<lambda>_. 150) (\<lambda>_. 150)"
  using toggleNodeState_frame [of 2 200 "initialState (\<lambda>_. 150) (\<lambda>_. 150)" 300]
        toggleNodeState_frame [of 7 300 "initialState (\<lambda>_. 150) (\<lambda>_. 150)" 300]
  by (simp add: initial_nodes createNode_def)

section \<open>AppendEntries handler: log continuity and the insertion loop\<close>

lemma insertEntries_at_end: "insertEntries lg (length lg) es = lg @ es"
proof (induction es arbitrary: lg)
  case Nil then show ?case by simp
next
  case (Cons e es)
  from Cons.IH [of "lg @ [e]"] show ?case by simp
qed

lemma agreeing_le: "agreeing lg i es \<le> length es"
  by (induction es arbitrary: i) auto

lemma agreeing_agree:
  "j < agreeing lg i es \<Longrightarrow> i + j < length lg \<and> entry_term (lg ! (i + j)) = entry_term (es ! j)"
proof (induction es arbitrary: i j)
  case Nil then show ?case by simp
next
  case (Cons e es)
  from Cons.prems have h: "i < length lg" "entry_term (lg ! i) = entry_term e"
    by (auto split: if_splits)
  show ?case
  proof (cases j)
    case 0 with h show ?thesis by simp
  next
    case (Suc j')
    with Cons.prems h have "j' < agreeing lg (Suc i) es" by simp
    from Cons.IH [OF this] Suc show ?thesis by simp
  qed
qed

lemma agreeing_stop:
  "agreeing lg i es < length es \<Longrightarrow>
     \<not> (i + agreeing lg i es < length lg \<and>
        entry_term (lg ! (i + agreeing lg i es)) = entry_term (es ! agreeing lg i es))"
proof (induction es arbitrary: i)
  case Nil then show ?case by simp
next
  case (Cons e es)
  show ?case
  proof (cases "i < length lg \<and> entry_term (lg ! i) = entry_term e")
    case True
    with Cons.prems have "agreeing lg (Suc i) es < length es" by simp
    from Cons.IH [OF this] True show ?thesis by simp
  next
    case False
    then show ?thesis by auto
  qed
qed

lemma insertEntries_closed:
  "i \<le> length lg \<Longrightarrow>
   insertEntries lg i es =
     (if agreeing lg i es < length es
      then take (i + agreeing lg i es) lg @ drop (agreeing lg i es) es else lg)"
proof (induction es arbitrary: i)
  case Nil then show ?case by simp
next
  case (Cons e es)
  show ?case
  proof (cases "i < length lg \<and> entry_term (lg ! i) = entry_term e")
    case True
    then show ?thesis using Cons.IH [of "Suc i"] by auto
  next
    case False
    with Cons.prems have "i = length lg \<or> (i < length lg \<and> entry_term (lg ! i) \<noteq> entry_term e)"
      by auto
    then show ?thesis
    proof
      assume "i = length lg"
      then show ?thesis using insertEntries_at_end [of "lg @ [e]" es] by simp
    next
      assume h: "i < length lg \<and> entry_term (lg ! i) \<noteq> entry_term e"
      then have "length (take i lg @ [e]) = Suc i" by simp
      with insertEntries_at_end [of "take i lg @ [e]" es] h show ?thesis by simp
    qed
  qed
qed

lemma agreeing_all:
  "(\<forall>j < length es. i + j < length lg \<and> entry_term (lg ! (i + j)) = entry_term (es ! j))
     \<Longrightarrow> agreeing lg i es = length es"
proof (induction es arbitrary: i)
  case Nil then show ?case by simp
next
  case (Cons e es)
  from Cons.prems have h: "i < length lg \<and> entry_term (lg ! i) = entry_term e" by force
  have "\<forall>j < length es. Suc i + j < length lg \<and> entry_term (lg ! (Suc i + j)) = entry_term (es ! j)"
  proof (intro allI impI)
    fix j assume "j < length es"
    then have "Suc j < length (e # es)" by simp
    from Cons.prems [rule_format, OF this] show "Suc i + j < length lg \<and> entry_term (lg ! (Suc i + j)) = entry_term (es ! j)"
      by simp
  qed
  from Cons.IH [OF this] h show ?case by simp
qed

lemma insertEntries_covers:
  assumes "i \<le> length lg" "j < length es"
  shows "i + j < length (insertEntries lg i es) \<and>
         entry_term (insertEntries lg i es ! (i + j)) = entry_term (es ! j)"
proof (cases "agreeing lg i es < length es")
  case False
  then have k: "agreeing lg i es = length es" using agreeing_le [of lg i es] by simp
  with agreeing_agree [of j lg i es] assms insertEntries_closed [OF assms(1), of es]
  show ?thesis by simp
next
  case True
  let ?k = "agreeing lg i es"
  have eq: "insertEntries lg i es = take (i + ?k) lg @ drop ?k es"
    using True insertEntries_closed [OF assms(1), of es] by simp
  have len: "i + ?k \<le> length lg"
  proof (cases ?k)
    case 0 then show ?thesis using assms by simp
  next
    case (Suc k')
    then have "k' < ?k" by simp
    from agreeing_agree [OF this] Suc show ?thesis by simp
  qed
  show ?thesis
  proof (cases "j < ?k")
    case True
    with agreeing_agree [OF True] len show ?thesis
      unfolding eq by (simp add: nth_append)
  next
    case False
    with len assms True show ?thesis
      unfolding eq by (simp add: nth_append min_absorb2)
  qed
qed

lemma insertEntries_prefix:
  assumes "i \<le> length lg"
  shows "take i (insertEntries lg i es) = take i lg"
proof -
  have "i + agreeing lg i es \<le> length lg \<or> agreeing lg i es = 0"
    using agreeing_agree [of "agreeing lg i es - 1" lg i es] by (cases "agreeing lg i es") auto
  then show ?thesis
    using insertEntries_closed [OF assms, of es] assms by (auto simp: min_def)
qed

lemma insertEntries_idem:
  assumes "i \<le> length lg"
  shows "insertEntries (insertEntries lg i es) i es = insertEntries lg i es"
proof -
  let ?L = "insertEntries lg i es"
  have a: "agreeing ?L i es = length es"
    using insertEntries_covers [OF assms] by (intro agreeing_all) blast
  have "length (take i ?L) = length (take i lg)"
    using insertEntries_prefix [OF assms, of es] by simp
  then have "i \<le> length ?L" using assms by simp
  from insertEntries_closed [OF this, of es] a show ?thesis by simp
qed

lemma heardFrom_fresh:
  "currentTerm node \<le> t \<Longrightarrow> heardFrom node t =
     node\<lparr> currentTerm := t, state := FOLLOWER, votedFor := None,
           electionTimeout := currentTimeoutDuration node \<rparr>"
  by (simp add: heardFrom_def)

text \<open>
  C4. For a payload that is not stale (its term is at least the node's term) and whose
  \<open>prevLogIndex\<close> is a log position or \<open>-1\<close>, the handler returns, and its reply
  reports success exactly when \<open>prevLogIndex = -1\<close> or the log has an entry at
  \<open>prevLogIndex\<close> whose term is \<open>prevLogTerm\<close>. Without success the log is unchanged.
  With success, let \<open>k\<close> be the first supplied entry for which the log has no entry of
  the same term at position \<open>prevLogIndex + 1 + k\<close>: the entries before \<open>k\<close> are
  present with the same term and nothing is changed for them; if there is no such \<open>k\<close>
  the log is unchanged; otherwise the log is cut at position \<open>prevLogIndex + 1 + k\<close>
  (which removes nothing when the log ends there) and entry \<open>k\<close> and all later supplied
  entries are appended. The hypothesis \<open>-1 \<le> prevLogIndex\<close> is needed: below \<open>-1\<close>
  the source raises a TypeError and sends no reply (\<open>processAppendEntries_negative_index\<close>).
\<close>

theorem processAppendEntries_log:
  fixes node :: RaftNode and p :: AppendEntriesPayload
  assumes "currentTerm node \<le> ae_term p" and "-1 \<le> prevLogIndex p"
  defines "lg \<equiv> nlog node" and "base \<equiv> nat (prevLogIndex p + 1)"
  defines "ok \<equiv> (prevLogIndex p = -1 \<or>
                   (prevLogIndex p < int (length lg) \<and>
                    entry_term (lg ! nat (prevLogIndex p)) = prevLogTerm p))"
  defines "present \<equiv> (\<lambda>j. base + j < length lg \<and>
                             entry_term (lg ! (base + j)) = entry_term (entries p ! j))"
  shows "\<exists>u r k. processAppendEntries node p = Inr (u, r)
           \<and> payload r = APPEND_RESPONSE \<lparr> ar_term = ae_term p, success = ok,
                                            ar_matchIndex = int (length (nlog u)) - 1 \<rparr>
           \<and> (\<not> ok \<longrightarrow> nlog u = lg)
           \<and> (ok \<longrightarrow> k \<le> length (entries p) \<and> (\<forall>j < k. present j)
                    \<and> (k < length (entries p) \<longrightarrow> \<not> present k)
                    \<and> nlog u = (if k < length (entries p)
                                 then take (base + k) lg @ drop k (entries p) else lg))"
proof -
  let ?h = "heardFrom node (ae_term p)"
  have h: "currentTerm ?h = ae_term p" "nlog ?h = lg"
    using assms(1) by (simp_all add: heardFrom_def lg_def)
  have lok: "logOk ?h p = ok"
    using h by (auto simp: logOk_def ok_def)
  show ?thesis
  proof (cases ok)
    case False
    then show ?thesis
      using h lok assms(2)
      by (simp add: processAppendEntries_def Let_def appendReply_def)
  next
    case True
    have base: "base \<le> length lg"
      using True assms(2) by (auto simp: ok_def base_def)
    let ?k = "agreeing lg base (entries p)"
    let ?L = "insertEntries lg base (entries p)"
    have 1: "?k \<le> length (entries p)" by (rule agreeing_le)
    have 2: "\<forall>j < ?k. present j"
      using agreeing_agree [of _ lg base "entries p"] by (simp add: present_def)
    have 3: "?k < length (entries p) \<longrightarrow> \<not> present ?k"
      using agreeing_stop [of lg base "entries p"] by (simp add: present_def)
    have 4: "?L = (if ?k < length (entries p) then take (base + ?k) lg @ drop ?k (entries p) else lg)"
      by (rule insertEntries_closed [OF base])
    have "\<exists>u r. processAppendEntries node p = Inr (u, r) \<and> nlog u = ?L
            \<and> payload r = APPEND_RESPONSE \<lparr> ar_term = ae_term p, success = ok,
                                            ar_matchIndex = int (length (nlog u)) - 1 \<rparr>"
      using h lok True assms(2)
      by (simp add: processAppendEntries_def Let_def appendReply_def base_def)
    then obtain u r where ur: "processAppendEntries node p = Inr (u, r)" "nlog u = ?L"
        "payload r = APPEND_RESPONSE \<lparr> ar_term = ae_term p, success = ok,
                                            ar_matchIndex = int (length (nlog u)) - 1 \<rparr>"
      by blast
    show ?thesis
      apply (rule exI [of _ u], rule exI [of _ r], rule exI [of _ ?k])
      using ur 1 2 3 4 True by simp
  qed
qed


theorem processAppendEntries_log_witness:
  "processAppendEntries
     ((createNode 1 200 180)\<lparr> currentTerm := 1,
         nlog := [\<lparr> entry_term = 1, command = ''SET X=5'' \<rparr>, \<lparr> entry_term = 1, command = ''ADD USER'' \<rparr>,
                  \<lparr> entry_term = 1, command = ''DEL DB'' \<rparr>] \<rparr>)
     \<lparr> ae_term = 2, leaderId = 0, prevLogIndex = 0, prevLogTerm = 1,
       entries = [\<lparr> entry_term = 1, command = ''ADD USER'' \<rparr>, \<lparr> entry_term = 2, command = ''INC Y'' \<rparr>,
                  \<lparr> entry_term = 2, command = ''MOV A->B'' \<rparr>],
       leaderCommit = -1 \<rparr>
   = Inr ((createNode 1 200 180)\<lparr> currentTerm := 2, electionTimeout := 180,
             nlog := [\<lparr> entry_term = 1, command = ''SET X=5'' \<rparr>, \<lparr> entry_term = 1, command = ''ADD USER'' \<rparr>,
                      \<lparr> entry_term = 2, command = ''INC Y'' \<rparr>, \<lparr> entry_term = 2, command = ''MOV A->B'' \<rparr>] \<rparr>,
          \<lparr> pfrom = 1, pto = 0,
            payload = APPEND_RESPONSE \<lparr> ar_term = 2, success = True, ar_matchIndex = 3 \<rparr>,
            progress = 0, speed = PACKET_SPEED \<rparr>)"
  using processAppendEntries_log [of
     "(createNode 1 200 180)\<lparr> currentTerm := 1,
         nlog := [\<lparr> entry_term = 1, command = ''SET X=5'' \<rparr>, \<lparr> entry_term = 1, command = ''ADD USER'' \<rparr>,
                  \<lparr> entry_term = 1, command = ''DEL DB'' \<rparr>] \<rparr>"
     "\<lparr> ae_term = 2, leaderId = 0, prevLogIndex = 0, prevLogTerm = 1,
       entries = [\<lparr> entry_term = 1, command = ''ADD USER'' \<rparr>, \<lparr> entry_term = 2, command = ''INC Y'' \<rparr>,
                  \<lparr> entry_term = 2, command = ''MOV A->B'' \<rparr>],
       leaderCommit = -1 \<rparr>"]
  by (simp add: createNode_def processAppendEntries_def heardFrom_def logOk_def appendReply_def)

lemma processAppendEntries_negative_index:
  "currentTerm node \<le> ae_term p \<Longrightarrow> prevLogIndex p < -1 \<Longrightarrow> processAppendEntries node p = Inl TypeError"
  by (simp add: processAppendEntries_def heardFrom_def)

text \<open>
  C4 as stated, for every non-stale payload, fails: a node of term 1 with one entry receives
  a payload of term 1 with \<open>prevLogIndex = -2\<close>. The guard \<open>log.length > prevLogIndex\<close>
  holds, \<open>log[-2]\<close> is \<open>undefined\<close>, and reading its \<open>term\<close> raises: the handler reports
  neither success nor failure.
\<close>

theorem processAppendEntries_raises:
  "processAppendEntries
     ((createNode 1 200 180)\<lparr> currentTerm := 1, nlog := [\<lparr> entry_term = 1, command = ''SET X=5'' \<rparr>] \<rparr>)
     \<lparr> ae_term = 1, leaderId = 0, prevLogIndex = -2, prevLogTerm = 1, entries = [], leaderCommit = -1 \<rparr>
   = Inl TypeError"
  by (simp add: processAppendEntries_def heardFrom_def createNode_def)

text \<open>
  C8. Redelivery is idempotent: if applying a payload to a node returns \<open>node1\<close> and the
  reply \<open>r1\<close>, then applying the same payload to \<open>node1\<close> returns \<open>node1\<close> and
  \<open>r1\<close> again. In particular the log and the commit index of \<open>node1\<close> are unchanged.
\<close>

theorem processAppendEntries_idempotent:
  assumes "processAppendEntries node p = Inr (node1, r1)"
  shows "processAppendEntries node1 p = Inr (node1, r1)"
proof (cases "ae_term p < currentTerm node")
  case True
  then have "node1 = node" using assms
    by (simp add: processAppendEntries_def heardFrom_def)
  then show ?thesis using assms by simp
next
  case False
  let ?h = "heardFrom node (ae_term p)"
  have h: "currentTerm ?h = ae_term p" "nlog ?h = nlog node" "nid ?h = nid node"
    using False by (simp_all add: heardFrom_def)
  have hh: "\<And>L c. heardFrom (?h\<lparr> nlog := L, commitIndex := c \<rparr>) (ae_term p) = ?h\<lparr> nlog := L, commitIndex := c \<rparr>"
           "heardFrom ?h (ae_term p) = ?h"
    using False by (simp_all add: heardFrom_def)
  have ge: "-1 \<le> prevLogIndex p"
    using assms False h by (auto simp: processAppendEntries_def Let_def split: if_splits)
  show ?thesis
  proof (cases "logOk ?h p")
    case no: False
    then have "node1 = ?h" "r1 = appendReply node ?h p False"
      using assms h False ge by (auto simp: processAppendEntries_def Let_def)
    then show ?thesis
      using no h hh ge by (simp add: processAppendEntries_def Let_def appendReply_def)
  next
    case yes: True
    let ?b = "nat (prevLogIndex p + 1)"
    let ?L = "insertEntries (nlog node) ?b (entries p)"
    let ?c = "if leaderCommit p > commitIndex ?h
              then min (leaderCommit p) (int (length ?L) - 1) else commitIndex ?h"
    have n1: "node1 = ?h\<lparr> nlog := ?L, commitIndex := ?c \<rparr>"
         and r1: "r1 = appendReply node node1 p True"
      using assms h False ge yes by (auto simp: processAppendEntries_def Let_def)
    have b: "?b \<le> length (nlog node)"
      using yes ge h by (auto simp: logOk_def)
    have pre: "take ?b ?L = take ?b (nlog node)"
      by (rule insertEntries_prefix [OF b])
    have "length (take ?b ?L) = length (take ?b (nlog node))" using pre by simp
    then have bL: "?b \<le> length ?L" using b by simp
    have ok1: "logOk node1 p"
    proof (cases "prevLogIndex p = -1")
      case True then show ?thesis by (simp add: logOk_def)
    next
      case False
      with ge have pos: "0 \<le> prevLogIndex p" by simp
      then have lt: "nat (prevLogIndex p) < ?b" by simp
      have "?L ! nat (prevLogIndex p) = take ?b ?L ! nat (prevLogIndex p)"
        using lt by simp
      also have "\<dots> = nlog node ! nat (prevLogIndex p)"
        unfolding pre using lt by simp
      finally have "?L ! nat (prevLogIndex p) = nlog node ! nat (prevLogIndex p)" .
      moreover have "prevLogIndex p < int (length ?L)" using bL pos by simp
      ultimately show ?thesis
        using yes False h by (simp add: logOk_def n1)
    qed
    have idem: "insertEntries ?L ?b (entries p) = ?L"
      by (rule insertEntries_idem [OF b])
    have c: "(if leaderCommit p > ?c then min (leaderCommit p) (int (length ?L) - 1) else ?c) = ?c"
      by auto
    have hn1: "heardFrom node1 (ae_term p) = node1"
      unfolding n1 by (rule hh)
    have f: "nlog node1 = ?L" "commitIndex node1 = ?c" "currentTerm node1 = ae_term p"
            "nid node1 = nid node"
      using h by (simp_all add: n1)
    have "node1\<lparr> nlog := ?L, commitIndex := ?c \<rparr> = node1"
      by (simp add: n1)
    then show ?thesis
      unfolding r1
      using hn1 ok1 idem c f ge
      by (simp add: processAppendEntries_def Let_def appendReply_def del: insertEntries.simps)
  qed
qed

theorem processAppendEntries_idempotent_witness:
  "processAppendEntries
     ((createNode 1 200 180)\<lparr> currentTerm := 2, electionTimeout := 180, commitIndex := 1,
         nlog := [\<lparr> entry_term = 1, command = ''SET X=5'' \<rparr>, \<lparr> entry_term = 2, command = ''INC Y'' \<rparr>] \<rparr>)
     \<lparr> ae_term = 2, leaderId = 0, prevLogIndex = 0, prevLogTerm = 1,
       entries = [\<lparr> entry_term = 2, command = ''INC Y'' \<rparr>], leaderCommit = 3 \<rparr>
   = Inr ((createNode 1 200 180)\<lparr> currentTerm := 2, electionTimeout := 180, commitIndex := 1,
             nlog := [\<lparr> entry_term = 1, command = ''SET X=5'' \<rparr>, \<lparr> entry_term = 2, command = ''INC Y'' \<rparr>] \<rparr>,
          \<lparr> pfrom = 1, pto = 0,
            payload = APPEND_RESPONSE \<lparr> ar_term = 2, success = True, ar_matchIndex = 1 \<rparr>,
            progress = 0, speed = PACKET_SPEED \<rparr>)"
proof -
  have first: "processAppendEntries
     ((createNode 1 200 180)\<lparr> currentTerm := 1,
         nlog := [\<lparr> entry_term = 1, command = ''SET X=5'' \<rparr>, \<lparr> entry_term = 1, command = ''ADD USER'' \<rparr>] \<rparr>)
     \<lparr> ae_term = 2, leaderId = 0, prevLogIndex = 0, prevLogTerm = 1,
       entries = [\<lparr> entry_term = 2, command = ''INC Y'' \<rparr>], leaderCommit = 3 \<rparr>
   = Inr ((createNode 1 200 180)\<lparr> currentTerm := 2, electionTimeout := 180, commitIndex := 1,
             nlog := [\<lparr> entry_term = 1, command = ''SET X=5'' \<rparr>, \<lparr> entry_term = 2, command = ''INC Y'' \<rparr>] \<rparr>,
          \<lparr> pfrom = 1, pto = 0,
            payload = APPEND_RESPONSE \<lparr> ar_term = 2, success = True, ar_matchIndex = 1 \<rparr>,
            progress = 0, speed = PACKET_SPEED \<rparr>)"
    by (simp add: createNode_def processAppendEntries_def heardFrom_def logOk_def appendReply_def)
  show ?thesis by (rule processAppendEntries_idempotent [OF first])
qed

section \<open>Commit index advancement on the leader\<close>

lemma length_filter_mono:
  "(\<And>x. x \<in> set xs \<Longrightarrow> P x \<Longrightarrow> Q x) \<Longrightarrow> length (filter P xs) \<le> length (filter Q xs)"
  by (induction xs) auto

lemma length_filter_sortDescending:
  "length (filter P (sortDescending xs)) = length (filter P xs)"
proof -
  have "filter P (sortDescending xs) = rev (sort (filter P xs))"
    by (simp add: sortDescending_def rev_filter [symmetric] filter_sort)
  then show ?thesis by simp
qed

lemma sortDescending_nth_mono:
  assumes "i \<le> j" "j < length xs"
  shows "sortDescending xs ! j \<le> sortDescending xs ! i"
proof -
  have "sorted_wrt (\<lambda>x y. y \<le> x) (sortDescending xs)"
    by (simp add: sortDescending_def sorted_wrt_rev)
  moreover have "j < length (sortDescending xs)" using assms by (simp add: sortDescending_def)
  ultimately show ?thesis
    using assms(1) by (cases "i = j") (auto dest: sorted_wrt_nth_less [where i = i and j = j])
qed

lemma rank2_desc:
  assumes "2 < length xs"
  defines "m \<equiv> sortDescending xs ! 2"
  shows "3 \<le> length (filter (\<lambda>v. m \<le> v) xs)" and "length (filter (\<lambda>v. m < v) xs) \<le> 2"
proof -
  let ?d = "sortDescending xs"
  have len: "length ?d = length xs" by (simp add: sortDescending_def)
  have d: "?d = take 3 ?d @ drop 3 ?d" by simp
  have "filter (\<lambda>v. m \<le> v) (take 3 ?d) = take 3 ?d"
  proof (rule filter_True, clarify)
    fix x assume "x \<in> set (take 3 ?d)"
    then obtain i where i: "i < 3" "i < length ?d" "x = ?d ! i"
      by (auto simp: in_set_conv_nth)
    then have "i \<le> 2" by simp
    from sortDescending_nth_mono [OF this assms(1)] i show "m \<le> x" by (simp add: m_def)
  qed
  then have "length (filter (\<lambda>v. m \<le> v) (take 3 ?d)) = 3"
    using assms(1) len by simp
  moreover have "length (filter (\<lambda>v. m \<le> v) ?d) =
      length (filter (\<lambda>v. m \<le> v) (take 3 ?d)) + length (filter (\<lambda>v. m \<le> v) (drop 3 ?d))"
    by (metis d filter_append length_append)
  ultimately show "3 \<le> length (filter (\<lambda>v. m \<le> v) xs)"
    using length_filter_sortDescending [of "\<lambda>v. m \<le> v" xs] by simp
  have "filter (\<lambda>v. m < v) (drop 2 ?d) = []"
  proof (rule filter_False, clarify)
    fix x assume "x \<in> set (drop 2 ?d)" "m < x"
    then obtain j where j: "j < length ?d - 2" "x = ?d ! (2 + j)"
      by (auto simp: in_set_conv_nth)
    then have "2 + j < length xs" using len by simp
    from sortDescending_nth_mono [OF _ this, of 2] j \<open>m < x\<close> show False by (simp add: m_def)
  qed
  moreover have "length (filter (\<lambda>v. m < v) ?d) =
      length (filter (\<lambda>v. m < v) (take 2 ?d)) + length (filter (\<lambda>v. m < v) (drop 2 ?d))"
    by (metis append_take_drop_id filter_append length_append)
  moreover have "length (filter (\<lambda>v. m < v) (take 2 ?d)) \<le> 2"
    by (rule order_trans [OF length_filter_le]) simp
  ultimately show "length (filter (\<lambda>v. m < v) xs) \<le> 2"
    using length_filter_sortDescending [of "\<lambda>v. m < v" xs] by simp
qed

lemma rank2_unique:
  fixes a b :: int
  assumes "3 \<le> length (filter (\<lambda>v. a \<le> v) xs)" "length (filter (\<lambda>v. a < v) xs) \<le> 2"
      and "3 \<le> length (filter (\<lambda>v. b \<le> v) xs)" "length (filter (\<lambda>v. b < v) xs) \<le> 2"
  shows "a = b"
proof (rule ccontr)
  assume "a \<noteq> b"
  then consider "a < b" | "b < a" by linarith
  then show False
  proof cases
    case 1
    then have "length (filter (\<lambda>v. b \<le> v) xs) \<le> length (filter (\<lambda>v. a < v) xs)"
      by (intro length_filter_mono) simp
    with assms show False by simp
  next
    case 2
    then have "length (filter (\<lambda>v. a \<le> v) xs) \<le> length (filter (\<lambda>v. b < v) xs)"
      by (intro length_filter_mono) simp
    with assms show False by simp
  qed
qed

lemma count_without_key:
  assumes "distinct (map fst r)" "map_of r k = Some s"
  shows "length (filter P (map snd r)) =
         length (filter P (map snd (filter (\<lambda>kv. fst kv \<noteq> k) r))) + (if P s then 1 else 0)"
  using assms
proof (induction r)
  case Nil then show ?case by simp
next
  case (Cons a r)
  show ?case
  proof (cases "fst a = k")
    case True
    with Cons.prems have s: "snd a = s" and "k \<notin> fst ` set r" by (auto simp: image_iff)
    then have "filter (\<lambda>kv. fst kv \<noteq> k) r = r" by (intro filter_True) force
    with True s show ?thesis by simp
  next
    case False
    with Cons.prems have "distinct (map fst r)" "map_of r k = Some s" by (auto split: if_splits)
    from Cons.IH [OF this] False show ?thesis by simp
  qed
qed

text \<open>
  The commit computation in general. A Leader processes a successful AppendResponse from \<open>sender\<close> whose term is its own.
  \<open>node1\<close> is the leader after \<open>matchIndex[sender]\<close> and \<open>nextIndex[sender]\<close> are
  updated, \<open>ms\<close> the leader's own last log index together with the values of its
  \<open>matchIndex\<close> record, and \<open>cand\<close> the value at rank 2 (= floor(NODE_COUNT / 2),
  counted from 0) of the descending sort of \<open>ms\<close>. Then the candidate commit index the
  code computes is \<open>cand\<close>; the commit index becomes \<open>cand\<close> exactly when \<open>cand\<close>
  exceeds the commit index and the log has an entry at \<open>cand\<close> whose term is the leader's
  current term, and nothing else changes. The rank means: at least three values of \<open>ms\<close>
  are at least \<open>cand\<close> and at most two are greater. The record holds one value per key;
  after an election win the keys are all node ids, the leader's own included. When the
  leader's own entry is not greater than three of the other values (it is 0, as are the
  initial values of the peers), the value is the same as the rank-2 value of the own last
  index together with the values of the other nodes only.
\<close>

theorem onAppendResponse_commit:
  fixes node :: RaftNode and sender :: int and p :: AppendResponsePayload
  assumes "state node = LEADER" and "ar_term p = currentTerm node" and "success p"
  defines "node1 \<equiv> node\<lparr> matchIndex := AList.update sender (ar_matchIndex p) (matchIndex node),
                           nextIndex := AList.update sender (ar_matchIndex p + 1) (nextIndex node) \<rparr>"
  defines "own \<equiv> int (length (nlog node)) - 1"
  defines "ms \<equiv> own # map snd (matchIndex node1)"
  defines "cand \<equiv> (if 2 < length ms then Some (rev (sort ms) ! 2) else None)"
  shows "map_of (matchIndex node1) = (map_of (matchIndex node))(sender \<mapsto> ar_matchIndex p)
       \<and> majorityN node1 = cand
       \<and> onAppendResponse node sender p =
           (if \<exists>m. cand = Some m \<and> commitIndex node < m \<and> 0 \<le> m \<and> m < int (length (nlog node))
                    \<and> entry_term (nlog node ! nat m) = currentTerm node
            then node1\<lparr> commitIndex := the cand \<rparr> else node1)
       \<and> (\<forall>m. cand = Some m \<longrightarrow>
              3 \<le> length (filter (\<lambda>v. m \<le> v) ms) \<and> length (filter (\<lambda>v. m < v) ms) \<le> 2)
       \<and> (\<forall>s. distinct (map fst (matchIndex node)) \<and> map_of (matchIndex node1) (nid node) = Some s
              \<and> 3 \<le> length (filter (\<lambda>v. s \<le> v)
                          (own # map snd (filter (\<lambda>kv. fst kv \<noteq> nid node) (matchIndex node1))))
            \<longrightarrow> cand = Some (rev (sort (own # map snd (filter (\<lambda>kv. fst kv \<noteq> nid node) (matchIndex node1)))) ! 2))"
proof -
  have A: "map_of (matchIndex node1) = (map_of (matchIndex node))(sender \<mapsto> ar_matchIndex p)"
    by (simp add: node1_def update_conv')
  have B: "majorityN node1 = cand"
    by (simp add: majorityN_def nthOpt_def sortDescending_def NODE_COUNT_def cand_def ms_def
          own_def node1_def)
  have f1: "nlog node1 = nlog node" "commitIndex node1 = commitIndex node"
           "currentTerm node1 = currentTerm node"
    by (simp_all add: node1_def)
  have "onAppendResponse node sender p = advanceCommit node1"
    using assms(1-3) by (simp add: onAppendResponse_def node1_def)
  also have "\<dots> = (if \<exists>m. cand = Some m \<and> commitIndex node < m \<and> 0 \<le> m \<and> m < int (length (nlog node))
                    \<and> entry_term (nlog node ! nat m) = currentTerm node
            then node1\<lparr> commitIndex := the cand \<rparr> else node1)"
    unfolding advanceCommit_def B
    by (cases cand) (auto simp: f1 nthOpt_def)
  finally have C: "onAppendResponse node sender p =
           (if \<exists>m. cand = Some m \<and> commitIndex node < m \<and> 0 \<le> m \<and> m < int (length (nlog node))
                    \<and> entry_term (nlog node ! nat m) = currentTerm node
            then node1\<lparr> commitIndex := the cand \<rparr> else node1)" .
  have D: "3 \<le> length (filter (\<lambda>v. m \<le> v) ms) \<and> length (filter (\<lambda>v. m < v) ms) \<le> 2"
    if "cand = Some m" for m
  proof -
    from that have "2 < length ms" "m = sortDescending ms ! 2"
      by (auto simp: cand_def sortDescending_def split: if_splits)
    with rank2_desc [of ms] show ?thesis by simp
  qed
  have E: "cand = Some (rev (sort (own # map snd (filter (\<lambda>kv. fst kv \<noteq> nid node) (matchIndex node1)))) ! 2)"
    if d: "distinct (map fst (matchIndex node))"
      and s: "map_of (matchIndex node1) (nid node) = Some s"
      and three: "3 \<le> length (filter (\<lambda>v. s \<le> v)
                          (own # map snd (filter (\<lambda>kv. fst kv \<noteq> nid node) (matchIndex node1))))"
    for s
  proof -
    let ?others = "filter (\<lambda>kv. fst kv \<noteq> nid node) (matchIndex node1)"
    let ?ms' = "own # map snd ?others"
    have d1: "distinct (map fst (matchIndex node1))"
      using d by (simp add: node1_def distinct_update)
    have cnt: "length (filter P ms) = length (filter P ?ms') + (if P s then 1 else 0)" for P
      using count_without_key [OF d1 s, of P] by (simp add: ms_def)
    have "3 \<le> length ?ms'"
      by (rule order_trans [OF three length_filter_le])
    then have l': "2 < length ?ms'" by simp
    moreover have "length ms = length ?ms' + 1" using cnt [of "\<lambda>_. True"] by simp
    ultimately have l: "2 < length ms" by linarith
    define m where "m = sortDescending ms ! 2"
    define m' where "m' = sortDescending ?ms' ! 2"
    have cm: "cand = Some m" using l by (simp add: cand_def m_def sortDescending_def)
    from D [OF cm] have m1: "3 \<le> length (filter (\<lambda>v. m \<le> v) ms)"
      and m2: "length (filter (\<lambda>v. m < v) ms) \<le> 2" by simp_all
    have a1: "3 \<le> length (filter (\<lambda>v. m \<le> v) ?ms')"
    proof (cases "m \<le> s")
      case True
      then have "length (filter (\<lambda>v. s \<le> v) ?ms') \<le> length (filter (\<lambda>v. m \<le> v) ?ms')"
        by (intro length_filter_mono) simp
      with three show ?thesis by simp
    next
      case False
      then show ?thesis using m1 cnt [of "\<lambda>v. m \<le> v"] by simp
    qed
    have a2: "length (filter (\<lambda>v. m < v) ?ms') \<le> 2"
      using m2 cnt [of "\<lambda>v. m < v"] by (simp split: if_splits)
    have "m = m'"
      using rank2_unique [OF a1 a2] rank2_desc [OF l'] by (simp add: m'_def)
    then show ?thesis using cm by (simp add: m'_def sortDescending_def)
  qed
  from A B C D E show ?thesis by blast
qed

theorem onAppendResponse_commit_witness:
  "onAppendResponse
     ((createNode 0 200 180)\<lparr> state := LEADER, currentTerm := 1,
         nlog := [\<lparr> entry_term = 1, command = ''SET X=5'' \<rparr>, \<lparr> entry_term = 1, command = ''ADD USER'' \<rparr>,
                  \<lparr> entry_term = 1, command = ''DEL DB'' \<rparr>],
         nextIndex := [(0, 0), (1, 0), (2, 3), (3, 0), (4, 0)],
         matchIndex := [(0, 0), (1, 0), (2, 2), (3, 0), (4, 0)] \<rparr>)
     1 \<lparr> ar_term = 1, success = True, ar_matchIndex = 2 \<rparr>
   = (createNode 0 200 180)\<lparr> state := LEADER, currentTerm := 1,
         nlog := [\<lparr> entry_term = 1, command = ''SET X=5'' \<rparr>, \<lparr> entry_term = 1, command = ''ADD USER'' \<rparr>,
                  \<lparr> entry_term = 1, command = ''DEL DB'' \<rparr>],
         nextIndex := [(0, 0), (1, 3), (2, 3), (3, 0), (4, 0)],
         matchIndex := [(0, 0), (1, 2), (2, 2), (3, 0), (4, 0)], commitIndex := 2 \<rparr>"
  using onAppendResponse_commit [of
     "(createNode 0 200 180)\<lparr> state := LEADER, currentTerm := 1,
         nlog := [\<lparr> entry_term = 1, command = ''SET X=5'' \<rparr>, \<lparr> entry_term = 1, command = ''ADD USER'' \<rparr>,
                  \<lparr> entry_term = 1, command = ''DEL DB'' \<rparr>],
         nextIndex := [(0, 0), (1, 0), (2, 3), (3, 0), (4, 0)],
         matchIndex := [(0, 0), (1, 0), (2, 2), (3, 0), (4, 0)] \<rparr>"
     "\<lparr> ar_term = 1, success = True, ar_matchIndex = 2 \<rparr>" 1]
  by (simp add: createNode_def)


section \<open>Election safety\<close>

subsection \<open>Indexing the node array\<close>

lemma ids_iff: "k \<in> ids \<longleftrightarrow> 0 \<le> k \<and> k < 5"
  by (auto simp: ids_def NODE_COUNT_def)

lemma findIndex_snoc:
  "findIndex P (xs @ [y]) =
      (case findIndex P xs of Some i \<Rightarrow> Some i | None \<Rightarrow> if P y then Some (length xs) else None)"
  by (induction xs) (auto split: option.splits)

lemma findIndex_nid:
  assumes "\<forall>j < length ns. nid (ns ! j) = int j"
  shows "findIndex (\<lambda>n. nid n = k) ns = (if 0 \<le> k \<and> k < int (length ns) then Some (nat k) else None)"
  using assms
proof (induction ns rule: rev_induct)
  case Nil then show ?case by simp
next
  case (snoc a ns)
  have a: "nid a = int (length ns)" using snoc.prems [rule_format, of "length ns"] by simp
  have "\<forall>j < length ns. nid (ns ! j) = int j"
  proof (intro allI impI)
    fix j assume "j < length ns"
    then show "nid (ns ! j) = int j" using snoc.prems [rule_format, of j] by (simp add: nth_append)
  qed
  from snoc.IH [OF this] have ih: "findIndex (\<lambda>n. nid n = k) ns =
     (if 0 \<le> k \<and> k < int (length ns) then Some (nat k) else None)" .
  show ?case
    unfolding findIndex_snoc ih using a by (auto simp: nat_eq_iff)
qed

lemma findIndex_wf:
  assumes "wfNodes ns"
  shows "findIndex (\<lambda>n. nid n = k) ns = (if k \<in> ids then Some (nat k) else None)"
proof -
  have len: "length ns = 5" using assms by (simp add: wfNodes_def NODE_COUNT_def)
  have "\<forall>j < length ns. nid (ns ! j) = int j"
  proof (intro allI impI)
    fix j assume "j < length ns"
    then have "int j \<in> ids" using len by (simp add: ids_iff)
    with assms have "nid (nd ns (int j)) = int j" by (simp add: wfNodes_def)
    then show "nid (ns ! j) = int j" by (simp add: nd_def)
  qed
  from findIndex_nid [OF this, of k] len show ?thesis by (simp add: ids_iff)
qed

lemma nd_update:
  assumes "k \<in> ids" "j \<in> ids" "length ns = 5"
  shows "nd (ns[nat k := n]) j = (if j = k then n else nd ns j)"
  using assms by (auto simp: nd_def ids_iff)

subsection \<open>One delivery preserves the vote invariant\<close>

text \<open>
  The counting argument, and the step lemma for the vote invariant: the facts assumed
  about a delivery are those every handler satisfies.
\<close>

lemma six_in_ids:
  assumes "a \<in> ids" "b \<in> ids" "c \<in> ids" "d \<in> ids" "e \<in> ids" "f \<in> ids"
    and "distinct [a, b, c, d, e, f]"
  shows False
proof -
  have "card (set [a, b, c, d, e, f]) = 6" using assms(7) by (subst distinct_card) simp_all
  moreover have "set [a, b, c, d, e, f] \<subseteq> ids" using assms by simp
  moreover have "card ids = 5" "finite ids" by (simp_all add: ids_def NODE_COUNT_def)
  ultimately show False using card_mono [of ids "set [a, b, c, d, e, f]"] by simp
qed

lemma voteInv_step:
  fixes ns :: "RaftNode list" and k t :: int
  defines "n \<equiv> nd ns k"
  assumes k: "k \<in> ids" and len: "length ns = 5"
    and ns': "ns' = ns[nat k := n']"
    and mono: "currentTerm n \<le> currentTerm n'"
    and nocand: "state n' = CANDIDATE \<longrightarrow> state n = CANDIDATE \<and> currentTerm n' = currentTerm n"
    and leader: "state n' = LEADER \<and> currentTerm n' = t \<longrightarrow>
           (state n = LEADER \<and> currentTerm n = t) \<or>
           (state n = CANDIDATE \<and> currentTerm n = t \<and>
            (\<exists>x \<in> ids. \<exists>y \<in> ids. x \<noteq> y \<and> supports ns P V t x k \<and> supports ns P V t y k))"
    and vote: "currentTerm n = t \<and> currentTerm n' = t \<longrightarrow>
           votedFor n' = votedFor n \<or>
           (\<exists>c. votedFor n' = Some c \<and> (votedFor n = None \<or> votedFor n = Some c))"
    and tracker: "\<forall>c \<in> ids. \<forall>x \<in> ids. candidateOf ns' t c \<and> x \<in> V' c \<longrightarrow> supports ns P V t x c"
    and new: "\<forall>r \<in> N. \<forall>x \<in> ids. \<forall>c \<in> ids. isVR t x c r \<longrightarrow>
           x = k \<and> c \<noteq> k \<and> currentTerm n' = t \<and> votedFor n' = Some c \<and>
           (currentTerm n = t \<longrightarrow> votedFor n = None \<or> votedFor n = Some c)"
    and Q: "voteInv ns P V t" and U: "uniqueLeader ns t"
  shows "voteInv ns' (P \<union> N) V' t \<and> uniqueLeader ns' t"
proof -
  have ndk: "nd ns' k = n'" and ndo: "\<And>j. j \<in> ids \<Longrightarrow> j \<noteq> k \<Longrightarrow> nd ns' j = nd ns j"
    using nd_update [OF k _ len] k by (simp_all add: ns')
  have Q1: "\<And>x c. x \<in> ids \<Longrightarrow> c \<in> ids \<Longrightarrow> supports ns P V t x c \<Longrightarrow> x \<noteq> c \<and> committed ns P V t x c"
    and Q2: "\<And>c. c \<in> ids \<Longrightarrow> candidateOf ns t c \<or> leaderOf ns t c \<Longrightarrow> committed ns P V t c c"
    and Q3: "\<And>a. a \<in> ids \<Longrightarrow> leaderOf ns t a \<Longrightarrow> \<exists>x \<in> ids. \<exists>y \<in> ids. x \<noteq> y \<and> x \<noteq> a \<and> y \<noteq> a \<and>
            committed ns P V t x a \<and> committed ns P V t y a"
    using Q unfolding voteInv_def by blast+
  define NEW where "NEW c \<longleftrightarrow> (\<exists>r \<in> N. isVR t k c r)" for c
  have newD: "currentTerm n' = t \<and> votedFor n' = Some c \<and> c \<noteq> k \<and>
           (currentTerm n = t \<longrightarrow> votedFor n = None \<or> votedFor n = Some c)"
    if "NEW c" "c \<in> ids" for c
    using that new k unfolding NEW_def by blast
  have candD: "candidateOf ns t c" if "candidateOf ns' t c" "c \<in> ids" for c
  proof (cases "c = k")
    case True
    with that nocand ndk show ?thesis by (auto simp: candidateOf_def n_def)
  next
    case False
    with that ndo show ?thesis by (simp add: candidateOf_def)
  qed
  have F1: "supports ns P V t x c \<or> (x = k \<and> NEW c)"
    if "supports ns' (P \<union> N) V' t x c" "x \<in> ids" "c \<in> ids" for x c
  proof -
    from that(1) consider q where "q \<in> P" "isVR t x c q" | q where "q \<in> N" "isVR t x c q"
      | "candidateOf ns' t c" "x \<in> V' c"
      unfolding supports_def by blast
    then show ?thesis
    proof cases
      case 1 then show ?thesis unfolding supports_def by blast
    next
      case 2
      with new that have "x = k" by blast
      with 2 show ?thesis unfolding NEW_def by blast
    next
      case 3 with tracker that show ?thesis by blast
    qed
  qed
  have F2: "committed ns' (P \<union> N) V' t x a"
    if C: "committed ns P V t x a" and x: "x \<in> ids" and a: "a \<in> ids" for x a
  proof -
    from C have tx: "t \<le> currentTerm (nd ns x)"
      and vx: "currentTerm (nd ns x) = t \<longrightarrow> votedFor (nd ns x) = Some a"
      and nx: "\<And>c'. c' \<in> ids \<Longrightarrow> c' \<noteq> a \<Longrightarrow> \<not> supports ns P V t x c'"
      unfolding committed_def by blast+
    show ?thesis
    proof (cases "x = k")
      case False
      then have "nd ns' x = nd ns x" using ndo x by simp
      moreover have "\<not> supports ns' (P \<union> N) V' t x c'" if "c' \<in> ids" "c' \<noteq> a" for c'
        using F1 [OF _ x that(1)] nx [OF that] False by blast
      ultimately show ?thesis using tx vx unfolding committed_def by simp
    next
      case True
      have t1: "t \<le> currentTerm n'" using tx mono True by (simp add: n_def)
      have t2: "votedFor n' = Some a" if "currentTerm n' = t"
      proof -
        from that tx mono True have "currentTerm n = t" by (simp add: n_def)
        with vx True have "votedFor n = Some a" by (simp add: n_def)
        with vote that \<open>currentTerm n = t\<close> show ?thesis by auto
      qed
      have t3: "\<not> supports ns' (P \<union> N) V' t x c'" if c': "c' \<in> ids" "c' \<noteq> a" for c'
      proof
        assume "supports ns' (P \<union> N) V' t x c'"
        from F1 [OF this x c'(1)] nx [OF c'] have N: "NEW c'" by blast
        from newD [OF N c'(1)] have "currentTerm n' = t" "votedFor n' = Some c'" by simp_all
        with t2 c'(2) show False by simp
      qed
      show ?thesis using t1 t2 t3 True ndk unfolding committed_def by simp
    qed
  qed
  have leadD: "leaderOf ns t c" if "leaderOf ns' t c" "c \<in> ids" "c \<noteq> k" for c
    using that ndo by (simp add: leaderOf_def)
  have leadK: "leaderOf ns t k \<or> (candidateOf ns t k \<and> (\<exists>x \<in> ids. \<exists>y \<in> ids. x \<noteq> y \<and> supports ns P V t x k \<and> supports ns P V t y k))"
    if "leaderOf ns' t k"
    using that leader ndk by (auto simp: leaderOf_def candidateOf_def n_def)
  have R1: "x \<noteq> c \<and> committed ns' (P \<union> N) V' t x c"
    if S: "supports ns' (P \<union> N) V' t x c" and x: "x \<in> ids" and c: "c \<in> ids" for x c
  proof -
    from F1 [OF S x c] show ?thesis
    proof
      assume "supports ns P V t x c"
      from Q1 [OF x c this] F2 x c show ?thesis by blast
    next
      assume xk: "x = k \<and> NEW c"
      from newD [OF _ c] xk have d: "currentTerm n' = t" "votedFor n' = Some c" "c \<noteq> k"
          "currentTerm n = t \<longrightarrow> votedFor n = None \<or> votedFor n = Some c" by simp_all
      have "\<not> supports ns' (P \<union> N) V' t k c'" if c': "c' \<in> ids" "c' \<noteq> c" for c'
      proof
        assume "supports ns' (P \<union> N) V' t k c'"
        from F1 [OF this k c'(1)] show False
        proof
          assume "supports ns P V t k c'"
          from Q1 [OF k c'(1) this] have C: "committed ns P V t k c'" by simp
          then have "t \<le> currentTerm n" by (simp add: committed_def n_def)
          with mono d(1) have "currentTerm n = t" by simp
          with C d(4) c'(2) show False by (auto simp: committed_def n_def)
        next
          assume "k = k \<and> NEW c'"
          from newD [OF _ c'(1)] this d(2) c'(2) show False by simp
        qed
      qed
      then show ?thesis using xk d ndk unfolding committed_def by simp
    qed
  qed
  have R2: "committed ns' (P \<union> N) V' t c c" if "candidateOf ns' t c \<or> leaderOf ns' t c" "c \<in> ids" for c
  proof -
    have "candidateOf ns t c \<or> leaderOf ns t c"
      using that candD leadD leadK by (cases "c = k") blast+
    from Q2 [OF that(2) this] F2 that(2) show ?thesis by blast
  qed
  have R3: "\<exists>x \<in> ids. \<exists>y \<in> ids. x \<noteq> y \<and> x \<noteq> a \<and> y \<noteq> a \<and>
            committed ns' (P \<union> N) V' t x a \<and> committed ns' (P \<union> N) V' t y a"
    if L: "leaderOf ns' t a" and a: "a \<in> ids" for a
  proof -
    have "leaderOf ns t a \<or> (a = k \<and> (\<exists>x \<in> ids. \<exists>y \<in> ids. x \<noteq> y \<and> supports ns P V t x k \<and> supports ns P V t y k))"
      using L a leadD leadK by (cases "a = k") blast+
    then show ?thesis
    proof
      assume "leaderOf ns t a"
      from Q3 [OF a this] F2 a show ?thesis by blast
    next
      assume "a = k \<and> (\<exists>x \<in> ids. \<exists>y \<in> ids. x \<noteq> y \<and> supports ns P V t x k \<and> supports ns P V t y k)"
      then obtain x y where xy: "a = k" "x \<in> ids" "y \<in> ids" "x \<noteq> y" "supports ns P V t x k" "supports ns P V t y k"
        by blast
      from Q1 [OF xy(2) k xy(5)] Q1 [OF xy(3) k xy(6)] F2 xy k show ?thesis by blast
    qed
  qed
  have RU: "a = c" if La: "leaderOf ns' t a" and Lc: "leaderOf ns' t c" and a: "a \<in> ids" and c: "c \<in> ids" for a c
  proof (rule ccontr)
    assume ac: "a \<noteq> c"
    have win: False
      if cd: "candidateOf ns t w" and w: "w \<in> ids" and xy: "x \<in> ids" "y \<in> ids" "x \<noteq> y" "supports ns P V t x w" "supports ns P V t y w"
        and Lo: "leaderOf ns t l" and l: "l \<in> ids" and wl: "w \<noteq> l" for w l x y
    proof -
      from Q3 [OF l Lo] obtain x' y' where x'y': "x' \<in> ids" "y' \<in> ids" "x' \<noteq> y'" "x' \<noteq> l" "y' \<noteq> l"
        "committed ns P V t x' l" "committed ns P V t y' l" by blast
      from Q1 [OF xy(1) w xy(4)] Q1 [OF xy(2) w xy(5)]
      have xw: "x \<noteq> w" "y \<noteq> w" by simp_all
      from Q2 [OF l] Lo have Cl: "committed ns P V t l l" by simp
      from Q2 [OF w] cd have Cw: "committed ns P V t w w" by simp
      have "x \<noteq> x'" "x \<noteq> y'" "y \<noteq> x'" "y \<noteq> y'"
        using x'y'(6,7) xy(4,5) w wl unfolding committed_def by blast+
      moreover have "x \<noteq> l" "y \<noteq> l"
        using Cl xy(4,5) w wl unfolding committed_def by blast+
      moreover have "w \<noteq> x'" "w \<noteq> y'"
        using x'y'(6,7) Cw cd wl unfolding committed_def candidateOf_def by auto
      ultimately have "distinct [w, l, x', y', x, y]"
        using xw wl x'y'(3,4,5) xy(3) by auto
      from six_in_ids [OF w l x'y'(1,2) xy(1,2) this] show False .
    qed
    consider "a = k" | "c = k" | "a \<noteq> k" "c \<noteq> k" by blast
    then show False
    proof cases
      case 1
      with ac have ck: "c \<noteq> k" by simp
      from leadD [OF Lc c ck] have Lc0: "leaderOf ns t c" .
      from leadK La 1 have "leaderOf ns t k \<or> (candidateOf ns t k \<and> (\<exists>x \<in> ids. \<exists>y \<in> ids. x \<noteq> y \<and> supports ns P V t x k \<and> supports ns P V t y k))"
        by simp
      then show False
      proof
        assume "leaderOf ns t k"
        with U Lc0 k c ck show False unfolding uniqueLeader_def by blast
      next
        assume "candidateOf ns t k \<and> (\<exists>x \<in> ids. \<exists>y \<in> ids. x \<noteq> y \<and> supports ns P V t x k \<and> supports ns P V t y k)"
        then show False using win [OF _ k _ _ _ _ _ Lc0 c] ck by blast
      qed
    next
      case 2
      with ac have ak: "a \<noteq> k" by simp
      from leadD [OF La a ak] have La0: "leaderOf ns t a" .
      from leadK Lc 2 have "leaderOf ns t k \<or> (candidateOf ns t k \<and> (\<exists>x \<in> ids. \<exists>y \<in> ids. x \<noteq> y \<and> supports ns P V t x k \<and> supports ns P V t y k))"
        by simp
      then show False
      proof
        assume "leaderOf ns t k"
        with U La0 k a ak show False unfolding uniqueLeader_def by blast
      next
        assume "candidateOf ns t k \<and> (\<exists>x \<in> ids. \<exists>y \<in> ids. x \<noteq> y \<and> supports ns P V t x k \<and> supports ns P V t y k)"
        then show False using win [OF _ k _ _ _ _ _ La0 a] ak by blast
      qed
    next
      case 3
      with leadD La Lc a c U ac show False unfolding uniqueLeader_def by blast
    qed
  qed
  show ?thesis
    unfolding voteInv_def uniqueLeader_def using R1 R2 R3 RU by blast
qed

subsection \<open>What the handlers do to role, term and vote\<close>

lemma adoptTerm_view:
  "nid (adoptTerm n t) = nid n"
  "currentTerm (adoptTerm n t) = max (currentTerm n) t"
  "state (adoptTerm n t) = (if currentTerm n < t then FOLLOWER else state n)"
  "votedFor (adoptTerm n t) = (if currentTerm n < t then None else votedFor n)"
  by (simp_all add: adoptTerm_def)

lemma processRequestVote_view:
  fixes n :: RaftNode and p :: RequestVotePayload
  defines "n' \<equiv> fst (processRequestVote n p)" and "r \<equiv> snd (processRequestVote n p)"
  shows "nid n' = nid n"
    and "currentTerm n' = max (currentTerm n) (rv_term p)"
    and "state n' = (if currentTerm n < rv_term p then FOLLOWER else state n)"
    and "votedFor n' = votedFor (adoptTerm n (rv_term p)) \<or>
         (votedFor n' = Some (candidateId p) \<and>
          (votedFor (adoptTerm n (rv_term p)) = None \<or> votedFor (adoptTerm n (rv_term p)) = Some (candidateId p)))"
    and "pfrom r = nid n" and "pto r = candidateId p"
    and "\<exists>g. payload r = VOTE_RESPONSE \<lparr> vr_term = currentTerm n', voteGranted = g \<rparr> \<and>
           (g \<longrightarrow> rv_term p = currentTerm n' \<and> votedFor n' = Some (candidateId p) \<and>
                 (votedFor (adoptTerm n (rv_term p)) = None \<or> votedFor (adoptTerm n (rv_term p)) = Some (candidateId p)))"
  unfolding n'_def r_def
  by (auto simp: processRequestVote_def Let_def adoptTerm_def)

lemma heardFrom_view:
  "nid (heardFrom n t) = nid n"
  "currentTerm (heardFrom n t) = max (currentTerm n) t"
  "state (heardFrom n t) = (if currentTerm n \<le> t then FOLLOWER else state n)"
  "votedFor (heardFrom n t) = (if currentTerm n \<le> t then None else votedFor n)"
  by (simp_all add: heardFrom_def)

lemma processAppendEntries_view:
  assumes "processAppendEntries n p = Inr (n', r)"
  shows "nid n' = nid n" "currentTerm n' = max (currentTerm n) (ae_term p)"
    "state n' = (if currentTerm n \<le> ae_term p then FOLLOWER else state n)"
    "votedFor n' = (if currentTerm n \<le> ae_term p then None else votedFor n)"
    "pfrom r = nid n" "pto r = leaderId p"
    "\<exists>a. payload r = APPEND_RESPONSE a"
  using assms
  by (auto simp: processAppendEntries_def Let_def heardFrom_def appendReply_def split: if_splits)

lemma advanceCommit_view:
  "nid (advanceCommit n) = nid n" "currentTerm (advanceCommit n) = currentTerm n"
  "state (advanceCommit n) = state n" "votedFor (advanceCommit n) = votedFor n"
  by (simp_all add: advanceCommit_def split: option.splits)

lemma onAppendResponse_view:
  fixes n :: RaftNode and s :: int and p :: AppendResponsePayload
  defines "n' \<equiv> onAppendResponse n s p"
  shows "nid n' = nid n" "currentTerm n' = max (currentTerm n) (ar_term p)"
    "state n' = (if currentTerm n < ar_term p then FOLLOWER else state n)"
    "votedFor n' = (if currentTerm n < ar_term p then None else votedFor n)"
  unfolding n'_def
  by (auto simp: onAppendResponse_def advanceCommit_view)

lemma majority_iff: "(of_nat c + 1 > (of_int NODE_COUNT :: rat) / 2) = (2 \<le> c)"
proof -
  have "(of_nat c + 1 > (5 :: rat) / 2) = (of_nat (2 * c + 2) > (of_nat 5 :: rat))"
    by (simp add: field_simps)
  also have "\<dots> = (2 * c + 2 > 5)" by (simp only: of_nat_less_iff)
  also have "\<dots> = (2 \<le> c)" by arith
  finally show ?thesis by (simp add: NODE_COUNT_def)
qed

lemma onVoteResponse_eq:
  "onVoteResponse ns V n s p =
     (let a = adoptTerm n (vr_term p) in
      if state a = CANDIDATE \<and> vr_term p = currentTerm a \<and> voteGranted p
      then if 2 \<le> card (insert s (V (nid a)))
           then (becomeLeader ns a, V(nid a := {}))
           else (a, V(nid a := insert s (V (nid a))))
      else (a, V))"
  unfolding onVoteResponse_def processVoteResponse_def Let_def majority_iff by (rule refl)

lemma becomeLeader_view:
  "nid (becomeLeader ns n) = nid n" "currentTerm (becomeLeader ns n) = currentTerm n"
  "state (becomeLeader ns n) = LEADER" "votedFor (becomeLeader ns n) = votedFor n"
  by (simp_all add: becomeLeader_def)

lemma onVoteResponse_view:
  fixes n :: RaftNode and s :: int and p :: VoteResponsePayload
    and ns :: "RaftNode list" and V :: "int \<Rightarrow> int set"
  defines "n' \<equiv> fst (onVoteResponse ns V n s p)" and "V' \<equiv> snd (onVoteResponse ns V n s p)"
  shows "nid n' = nid n" "currentTerm n' = max (currentTerm n) (vr_term p)"
    "votedFor n' = (if currentTerm n < vr_term p then None else votedFor n)"
    "state n' = (if currentTerm n < vr_term p then FOLLOWER else state n) \<or>
       (state n' = LEADER \<and> state n = CANDIDATE \<and> vr_term p = currentTerm n \<and> voteGranted p \<and>
        2 \<le> card (insert s (V (nid n))))"
    "\<forall>c. c \<noteq> nid n \<longrightarrow> V' c = V c"
    "V' (nid n) = V (nid n) \<or> V' (nid n) = {} \<or>
       (V' (nid n) = insert s (V (nid n)) \<and> state n = CANDIDATE \<and> vr_term p = currentTerm n \<and> voteGranted p)"
  unfolding n'_def V'_def onVoteResponse_eq Let_def
  by (simp_all add: adoptTerm_view becomeLeader_view)

subsection \<open>One delivery, case by case\<close>

lemma deliver_eq:
  assumes "wfNodes ns" "pto q \<in> ids"
  shows "deliver q (ns, sv, V) =
     (case payload q of
        REQUEST_VOTE p \<Rightarrow>
          Inr (ns[nat (pto q) := fst (processRequestVote (nd ns (pto q)) p)],
               sv @ [snd (processRequestVote (nd ns (pto q)) p)], V)
      | VOTE_RESPONSE p \<Rightarrow>
          Inr (ns[nat (pto q) := fst (onVoteResponse ns V (nd ns (pto q)) (pfrom q) p)], sv,
               snd (onVoteResponse ns V (nd ns (pto q)) (pfrom q) p))
      | APPEND_ENTRIES p \<Rightarrow>
          (case processAppendEntries (nd ns (pto q)) p of
             Inl e \<Rightarrow> Inl e
           | Inr (u, r) \<Rightarrow> Inr (ns[nat (pto q) := u], sv @ [r], V))
      | APPEND_RESPONSE p \<Rightarrow>
          Inr (ns[nat (pto q) := onAppendResponse (nd ns (pto q)) (pfrom q) p], sv, V))"
proof -
  have "state (nd ns (pto q)) \<noteq> CRASHED" using assms by (simp add: wfNodes_def)
  then show ?thesis
    using findIndex_wf [OF assms(1), of "pto q"] assms(2)
    by (simp add: deliver_def nd_def Let_def split: Payload.splits prod.splits sum.splits)
qed

lemma two_in_set:
  assumes "2 \<le> card S"
  shows "\<exists>x \<in> S. \<exists>y \<in> S. x \<noteq> y"
proof (rule ccontr)
  assume "\<not> (\<exists>x \<in> S. \<exists>y \<in> S. x \<noteq> y)"
  then have "\<And>x. x \<in> S \<Longrightarrow> S \<subseteq> {x}" by blast
  then have "S = {} \<or> (\<exists>x. S = {x})" by blast
  then have "card S \<le> 1" by auto
  with assms show False by simp
qed

lemma deliver_view:
  fixes ns :: "RaftNode list" and q :: Packet
  defines "k \<equiv> pto q"
  defines "n \<equiv> nd ns k"
  assumes wf: "wfNodes ns" and wq: "wfPacket q"
    and d: "deliver q (ns, sv, V) = Inr (ns', sv', V')"
  shows "\<exists>n' N. ns' = ns[nat k := n'] \<and> sv' = sv @ N \<and> nid n' = nid n \<and>
     currentTerm n \<le> currentTerm n' \<and> state n' \<noteq> CRASHED \<and>
     (state n' = CANDIDATE \<longrightarrow> state n = CANDIDATE \<and> currentTerm n' = currentTerm n) \<and>
     (state n' = LEADER \<longrightarrow>
        (state n = LEADER \<and> currentTerm n' = currentTerm n) \<or>
        (state n = CANDIDATE \<and> currentTerm n' = currentTerm n \<and>
         payload q = VOTE_RESPONSE \<lparr> vr_term = currentTerm n, voteGranted = True \<rparr> \<and>
         2 \<le> card (insert (pfrom q) (V k)))) \<and>
     (currentTerm n' = currentTerm n \<longrightarrow>
        votedFor n' = votedFor n \<or>
        (\<exists>c. votedFor n' = Some c \<and> (votedFor n = None \<or> votedFor n = Some c)) \<or>
        isAE (currentTerm n) q) \<and>
     (\<forall>c. c \<noteq> k \<longrightarrow> V' c = V c) \<and>
     (V' k = V k \<or> V' k = {} \<or>
        (V' k = insert (pfrom q) (V k) \<and> state n = CANDIDATE \<and>
         payload q = VOTE_RESPONSE \<lparr> vr_term = currentTerm n, voteGranted = True \<rparr>)) \<and>
     (\<forall>r \<in> set N. wfPacket r \<and> (\<forall>t'. \<not> isAE t' r) \<and>
        (\<forall>t x c. isVR t x c r \<longrightarrow>
           x = k \<and> c \<noteq> k \<and> currentTerm n' = t \<and> votedFor n' = Some c \<and>
           (currentTerm n = t \<longrightarrow> votedFor n = None \<or> votedFor n = Some c))) \<and>
     (\<forall>t. isAE t q \<longrightarrow> t \<le> currentTerm n' \<and> \<not> (state n' = CANDIDATE \<and> currentTerm n' = t))"
proof -
  have k: "k \<in> ids" and fk: "pfrom q \<in> ids" "pfrom q \<noteq> k"
    using wq by (simp_all add: wfPacket_def k_def)
  have nk: "nid n = k" "state n \<noteq> CRASHED" using wf k by (simp_all add: wfNodes_def n_def)
  note de = d [unfolded deliver_eq [OF wf k [unfolded k_def]], folded k_def, folded n_def]
  show ?thesis
  proof (cases "payload q")
    case (REQUEST_VOTE p)
    let ?n' = "fst (processRequestVote n p)" and ?r = "snd (processRequestVote n p)"
    have cid: "candidateId p = pfrom q" using wq REQUEST_VOTE by (simp add: wfPacket_def)
    note v = processRequestVote_view [of n p]
    from de REQUEST_VOTE have e: "ns' = ns[nat k := ?n']" "sv' = sv @ [?r]" "V' = V" by simp_all
    from v(7) obtain g where g: "payload ?r = VOTE_RESPONSE \<lparr> vr_term = currentTerm ?n', voteGranted = g \<rparr>"
      "g \<longrightarrow> rv_term p = currentTerm ?n' \<and> votedFor ?n' = Some (candidateId p) \<and>
                 (votedFor (adoptTerm n (rv_term p)) = None \<or> votedFor (adoptTerm n (rv_term p)) = Some (candidateId p))"
      by blast
    have wr: "wfPacket ?r" using v(5,6) g(1) nk fk cid k by (simp add: wfPacket_def)
    have nr: "\<And>t'. \<not> isAE t' ?r" using g(1) by (simp add: isAE_def)
    have vr: "x = k \<and> c \<noteq> k \<and> currentTerm ?n' = t \<and> votedFor ?n' = Some c \<and>
           (currentTerm n = t \<longrightarrow> votedFor n = None \<or> votedFor n = Some c)"
      if "isVR t x c ?r" for t x c
    proof -
      from that g(1) v(5,6) have "x = k" "c = pfrom q" "currentTerm ?n' = t" "g"
        by (auto simp: isVR_def nk cid)
      with g(2) fk cid show ?thesis by (auto simp: adoptTerm_view split: if_splits)
    qed
    show ?thesis
      apply (rule exI [of _ ?n'], rule exI [of _ "[?r]"])
      using e v(1-4) nk wr nr vr REQUEST_VOTE
      by (auto simp: adoptTerm_view isAE_def split: if_splits)
  next
    case (VOTE_RESPONSE p)
    let ?n' = "fst (onVoteResponse ns V n (pfrom q) p)" and ?V' = "snd (onVoteResponse ns V n (pfrom q) p)"
    note v = onVoteResponse_view [where n = n and s = "pfrom q" and p = p and ns = ns and V = V]
    from de VOTE_RESPONSE have e: "ns' = ns[nat k := ?n']" "sv' = sv" "V' = ?V'" by simp_all
    have pe: "vr_term p = currentTerm n \<Longrightarrow> voteGranted p \<Longrightarrow>
        payload q = VOTE_RESPONSE \<lparr> vr_term = currentTerm n, voteGranted = True \<rparr>"
      using VOTE_RESPONSE by simp
    show ?thesis
      apply (rule exI [of _ ?n'], rule exI [of _ "[]"])
      using e v nk pe VOTE_RESPONSE
      by (auto simp: isAE_def split: if_splits)
  next
    case (APPEND_ENTRIES p)
    with de obtain u r where ur: "processAppendEntries n p = Inr (u, r)"
      "ns' = ns[nat k := u]" "sv' = sv @ [r]" "V' = V"
      by (auto split: sum.splits)
    note v = processAppendEntries_view [OF ur(1)]
    have lid: "leaderId p = pfrom q" using wq APPEND_ENTRIES by (simp add: wfPacket_def)
    from v(7) obtain a where a: "payload r = APPEND_RESPONSE a" by blast
    have wr: "wfPacket r" using v(5,6) a nk fk lid k by (simp add: wfPacket_def)
    have nr: "\<And>t'. \<not> isAE t' r" "\<And>t x c. \<not> isVR t x c r" using a by (simp_all add: isAE_def isVR_def)
    show ?thesis
      apply (rule exI [of _ u], rule exI [of _ "[r]"])
      using ur(2-4) v(1-4) nk wr nr APPEND_ENTRIES
      by (auto simp: isAE_def split: if_splits)
  next
    case (APPEND_RESPONSE p)
    let ?n' = "onAppendResponse n (pfrom q) p"
    note v = onAppendResponse_view [of n "pfrom q" p]
    from de APPEND_RESPONSE have e: "ns' = ns[nat k := ?n']" "sv' = sv" "V' = V" by simp_all
    show ?thesis
      apply (rule exI [of _ ?n'], rule exI [of _ "[]"])
      using e v nk APPEND_RESPONSE
      by (auto simp: isAE_def split: if_splits)
  qed
qed

subsection \<open>The facts of a delivery\<close>

lemma wfNodes_update:
  assumes "wfNodes ns" "k \<in> ids" "nid n' = k" "state n' \<noteq> CRASHED"
  shows "wfNodes (ns[nat k := n'])"
proof -
  have len: "length ns = 5" using assms(1) by (simp add: wfNodes_def NODE_COUNT_def)
  show ?thesis
    unfolding wfNodes_def
    using assms nd_update [OF assms(2) _ len, of _ n'] len
    by (auto simp: wfNodes_def NODE_COUNT_def)
qed

lemma deliver_abs:
  fixes ns :: "RaftNode list" and q :: Packet
  defines "k \<equiv> pto q"
  defines "n \<equiv> nd ns k"
  assumes W: "wellFormed ns P V" and qP: "q \<in> P"
    and d: "deliver q (ns, sv, V) = Inr (ns', sv', V')"
  shows "\<exists>n' N. sv' = sv @ N \<and> deliveryFacts ns P V q ns' V' n' N"
proof -
  have wf: "wfNodes ns" and wq: "wfPacket q" and VI: "\<And>c. V c \<subseteq> ids"
    using W qP by (auto simp: wellFormed_def)
  have k: "k \<in> ids" and fk: "pfrom q \<in> ids" using wq by (simp_all add: wfPacket_def k_def)
  have len: "length ns = 5" using wf by (simp add: wfNodes_def NODE_COUNT_def)
  have nk: "nid n = k" using wf k by (simp add: wfNodes_def n_def)
  from deliver_view [OF wf wq d, folded k_def, folded n_def]
  obtain n' N where ns': "ns' = ns[nat k := n']" and sv': "sv' = sv @ N" and nid': "nid n' = nid n"
    and mono: "currentTerm n \<le> currentTerm n'" and ncr: "state n' \<noteq> CRASHED"
    and nocand: "state n' = CANDIDATE \<longrightarrow> state n = CANDIDATE \<and> currentTerm n' = currentTerm n"
    and leader: "state n' = LEADER \<longrightarrow>
        (state n = LEADER \<and> currentTerm n' = currentTerm n) \<or>
        (state n = CANDIDATE \<and> currentTerm n' = currentTerm n \<and>
         payload q = VOTE_RESPONSE \<lparr> vr_term = currentTerm n, voteGranted = True \<rparr> \<and>
         2 \<le> card (insert (pfrom q) (V k)))"
    and vote: "currentTerm n' = currentTerm n \<longrightarrow>
        votedFor n' = votedFor n \<or>
        (\<exists>c. votedFor n' = Some c \<and> (votedFor n = None \<or> votedFor n = Some c)) \<or>
        isAE (currentTerm n) q"
    and Vo: "\<forall>c. c \<noteq> k \<longrightarrow> V' c = V c"
    and Vk: "V' k = V k \<or> V' k = {} \<or>
        (V' k = insert (pfrom q) (V k) \<and> state n = CANDIDATE \<and>
         payload q = VOTE_RESPONSE \<lparr> vr_term = currentTerm n, voteGranted = True \<rparr>)"
    and new: "\<forall>r \<in> set N. wfPacket r \<and> (\<forall>t'. \<not> isAE t' r) \<and>
        (\<forall>t x c. isVR t x c r \<longrightarrow>
           x = k \<and> c \<noteq> k \<and> currentTerm n' = t \<and> votedFor n' = Some c \<and>
           (currentTerm n = t \<longrightarrow> votedFor n = None \<or> votedFor n = Some c))"
    and notif: "\<forall>t. isAE t q \<longrightarrow> t \<le> currentTerm n' \<and> \<not> (state n' = CANDIDATE \<and> currentTerm n' = t)"
    by blast
  have ndk: "nd ns' k = n'" and ndo: "\<And>j. j \<in> ids \<Longrightarrow> j \<noteq> k \<Longrightarrow> nd ns' j = nd ns j"
    using nd_update [OF k _ len] k by (simp_all add: ns')
  have wf': "wfNodes ns'" unfolding ns' using wfNodes_update [OF wf k] nid' nk ncr by simp
  have V'I: "\<And>c. V' c \<subseteq> ids"
  proof -
    fix c show "V' c \<subseteq> ids"
      using Vo Vk VI [of c] VI [of k] fk by (cases "c = k") auto
  qed
  have W': "wellFormed ns' (P \<union> set N) V'"
    using wf' V'I new W by (auto simp: wellFormed_def)
  have viaq: "supports ns P V t x k"
    if "x \<in> insert (pfrom q) (V k)" "state n = CANDIDATE" "currentTerm n = t"
      "payload q = VOTE_RESPONSE \<lparr> vr_term = currentTerm n, voteGranted = True \<rparr>" for x t
  proof (cases "x = pfrom q")
    case True
    with that qP have "isVR t x k q" by (simp add: isVR_def k_def)
    with qP show ?thesis unfolding supports_def by blast
  next
    case False
    with that show ?thesis by (simp add: supports_def candidateOf_def n_def)
  qed
  have L: "\<forall>t. state n' = LEADER \<and> currentTerm n' = t \<longrightarrow>
           (state n = LEADER \<and> currentTerm n = t) \<or>
           (state n = CANDIDATE \<and> currentTerm n = t \<and>
            (\<exists>x \<in> ids. \<exists>y \<in> ids. x \<noteq> y \<and> supports ns P V t x k \<and> supports ns P V t y k))"
  proof (intro allI impI)
    fix t
    assume a: "state n' = LEADER \<and> currentTerm n' = t"
    with leader consider "state n = LEADER" "currentTerm n = t"
      | "state n = CANDIDATE" "currentTerm n = t"
        "payload q = VOTE_RESPONSE \<lparr> vr_term = currentTerm n, voteGranted = True \<rparr>"
        "2 \<le> card (insert (pfrom q) (V k))" by auto
    then show "(state n = LEADER \<and> currentTerm n = t) \<or>
           (state n = CANDIDATE \<and> currentTerm n = t \<and>
            (\<exists>x \<in> ids. \<exists>y \<in> ids. x \<noteq> y \<and> supports ns P V t x k \<and> supports ns P V t y k))"
    proof cases
      case 1 then show ?thesis by simp
    next
      case 2
      from two_in_set [OF 2(4)] obtain x y where xy: "x \<in> insert (pfrom q) (V k)"
        "y \<in> insert (pfrom q) (V k)" "x \<noteq> y" by blast
      have "x \<in> ids" "y \<in> ids" using xy fk VI [of k] by auto
      with xy viaq 2 show ?thesis by blast
    qed
  qed
  have Vt: "\<forall>t. \<not> isAE t q \<longrightarrow> currentTerm n = t \<and> currentTerm n' = t \<longrightarrow>
           votedFor n' = votedFor n \<or>
           (\<exists>c. votedFor n' = Some c \<and> (votedFor n = None \<or> votedFor n = Some c))"
    using vote by auto
  have T: "\<forall>t. \<forall>c \<in> ids. \<forall>x \<in> ids. candidateOf ns' t c \<and> x \<in> V' c \<longrightarrow> supports ns P V t x c"
  proof (intro allI ballI impI)
    fix t c x assume c: "c \<in> ids" and x: "x \<in> ids" and a: "candidateOf ns' t c \<and> x \<in> V' c"
    show "supports ns P V t x c"
    proof (cases "c = k")
      case False
      with a Vo ndo [OF c] show ?thesis by (simp add: supports_def candidateOf_def)
    next
      case True
      with a ndk nocand have cn: "state n = CANDIDATE" "currentTerm n = t"
        by (auto simp: candidateOf_def)
      from a True Vk consider "x \<in> V k"
        | "x \<in> insert (pfrom q) (V k)" "payload q = VOTE_RESPONSE \<lparr> vr_term = currentTerm n, voteGranted = True \<rparr>"
        by auto
      then show ?thesis
      proof cases
        case 1 with cn True show ?thesis by (simp add: supports_def candidateOf_def n_def)
      next
        case 2 with viaq cn True show ?thesis by simp
      qed
    qed
  qed
  have Nw: "\<forall>t. \<forall>r \<in> set N. \<forall>x \<in> ids. \<forall>c \<in> ids. isVR t x c r \<longrightarrow>
           x = k \<and> c \<noteq> k \<and> currentTerm n' = t \<and> votedFor n' = Some c \<and>
           (currentTerm n = t \<longrightarrow> votedFor n = None \<or> votedFor n = Some c)"
    using new by blast
  have S: "\<forall>x \<in> ids. \<forall>t'. settled ns t' x \<longrightarrow> settled ns' t' x"
  proof (intro ballI allI impI)
    fix x t' assume x: "x \<in> ids" and s: "settled ns t' x"
    show "settled ns' t' x"
    proof (cases "x = k")
      case False with s ndo [OF x] show ?thesis by (simp add: settled_def candidateOf_def)
    next
      case True
      with s mono nocand ndk show ?thesis by (auto simp: settled_def candidateOf_def n_def)
    qed
  qed
  have No: "\<forall>t. isAE t q \<longrightarrow> settled ns' t k"
    using notif ndk by (auto simp: settled_def candidateOf_def)
  have "deliveryFacts ns P V q ns' V' n' N"
    unfolding deliveryFacts_def
    using k len ns' W' new S mono nocand L Vt T Nw No
    unfolding k_def n_def by blast
  with sv' show ?thesis by blast
qed

lemma deliver_Q:
  assumes W: "wellFormed ns P V" and qP: "q \<in> P" and nAE: "\<not> isAE t q"
    and Q: "voteInv ns P V t" and U: "uniqueLeader ns t"
    and d: "deliver q (ns, sv, V) = Inr (ns', sv', V')"
    and A: "deliveryFacts ns P V q ns' V' n' N"
  shows "voteInv ns' (P \<union> set N) V' t \<and> uniqueLeader ns' t"
proof -
  note a = A [unfolded deliveryFacts_def]
  have 1: "pto q \<in> ids" "length ns = 5" "ns' = ns[nat (pto q) := n']" using a by simp_all
  have 2: "currentTerm (nd ns (pto q)) \<le> currentTerm n'" using a by simp
  have 3: "state n' = CANDIDATE \<longrightarrow> state (nd ns (pto q)) = CANDIDATE \<and> currentTerm n' = currentTerm (nd ns (pto q))"
    using a by simp
  have 4: "state n' = LEADER \<and> currentTerm n' = t \<longrightarrow>
           (state (nd ns (pto q)) = LEADER \<and> currentTerm (nd ns (pto q)) = t) \<or>
           (state (nd ns (pto q)) = CANDIDATE \<and> currentTerm (nd ns (pto q)) = t \<and>
            (\<exists>x \<in> ids. \<exists>y \<in> ids. x \<noteq> y \<and> supports ns P V t x (pto q) \<and> supports ns P V t y (pto q)))"
    using a by blast
  have 5: "currentTerm (nd ns (pto q)) = t \<and> currentTerm n' = t \<longrightarrow>
           votedFor n' = votedFor (nd ns (pto q)) \<or>
           (\<exists>c. votedFor n' = Some c \<and> (votedFor (nd ns (pto q)) = None \<or> votedFor (nd ns (pto q)) = Some c))"
    using a nAE by blast
  have 6: "\<forall>c \<in> ids. \<forall>x \<in> ids. candidateOf ns' t c \<and> x \<in> V' c \<longrightarrow> supports ns P V t x c"
    using a by blast
  have 7: "\<forall>r \<in> set N. \<forall>x \<in> ids. \<forall>c \<in> ids. isVR t x c r \<longrightarrow>
           x = pto q \<and> c \<noteq> pto q \<and> currentTerm n' = t \<and> votedFor n' = Some c \<and>
           (currentTerm (nd ns (pto q)) = t \<longrightarrow> votedFor (nd ns (pto q)) = None \<or> votedFor (nd ns (pto q)) = Some c)"
    using a by blast
  from voteInv_step [OF 1 2 3 4 5 6 7 Q U] show ?thesis .
qed

lemma deliveryFactsD:
  assumes "deliveryFacts ns P V q ns' V' n' N"
  shows "pto q \<in> ids" "length ns = 5" "ns' = ns[nat (pto q) := n']"
    "wellFormed ns' (P \<union> set N) V'" "\<forall>r \<in> set N. \<forall>t'. \<not> isAE t' r"
    "\<forall>x \<in> ids. \<forall>t'. settled ns t' x \<longrightarrow> settled ns' t' x"
    "\<forall>t. state n' = LEADER \<and> currentTerm n' = t \<longrightarrow>
           (state (nd ns (pto q)) = LEADER \<and> currentTerm (nd ns (pto q)) = t) \<or>
           (state (nd ns (pto q)) = CANDIDATE \<and> currentTerm (nd ns (pto q)) = t)"
    "\<forall>t. isAE t q \<longrightarrow> settled ns' t (pto q)"
  using assms unfolding deliveryFacts_def by blast+

subsection \<open>The tick in which a leader is first heard\<close>

lemma supports_mono: "A \<subseteq> P \<Longrightarrow> supports ns A V t x c \<Longrightarrow> supports ns P V t x c"
  unfolding supports_def by blast

lemma voteInv_arrivalInv:
  assumes Q: "voteInv ns P V t" and AP: "A \<subseteq> P"
  shows "arrivalInv ns A V t"
proof -
  have Q1: "\<And>x c. x \<in> ids \<Longrightarrow> c \<in> ids \<Longrightarrow> supports ns P V t x c \<Longrightarrow> x \<noteq> c \<and> committed ns P V t x c"
    and Q2: "\<And>c. c \<in> ids \<Longrightarrow> candidateOf ns t c \<or> leaderOf ns t c \<Longrightarrow> committed ns P V t c c"
    and Q3: "\<And>a. a \<in> ids \<Longrightarrow> leaderOf ns t a \<Longrightarrow> \<exists>x \<in> ids. \<exists>y \<in> ids. x \<noteq> y \<and> x \<noteq> a \<and> y \<noteq> a \<and>
            committed ns P V t x a \<and> committed ns P V t y a"
    using Q unfolding voteInv_def by blast+
  have fr: "exclusive ns A V t x c" if "committed ns P V t x c" for x c
    using that supports_mono [OF AP] unfolding exclusive_def committed_def by blast
  have st: "settled ns t x" if C: "committed ns P V t x c" and x: "x \<in> ids" and xc: "x \<noteq> c" for x c
  proof -
    have "\<not> candidateOf ns t x"
    proof
      assume c: "candidateOf ns t x"
      from Q2 [OF x] c have "committed ns P V t x x" by simp
      with C c xc show False by (auto simp: committed_def candidateOf_def)
    qed
    with C show ?thesis by (simp add: settled_def committed_def)
  qed
  have J1: "x \<noteq> c \<and> settled ns t x \<and> exclusive ns A V t x c"
    if "supports ns A V t x c" "x \<in> ids" "c \<in> ids" for x c
    using Q1 [OF that(2,3) supports_mono [OF AP that(1)]] fr st that(2) by blast
  have J2: "exclusive ns A V t c c" if "candidateOf ns t c \<or> leaderOf ns t c" "c \<in> ids" for c
    using Q2 [OF that(2,1)] fr by blast
  have J3: "\<exists>x \<in> ids. \<exists>y \<in> ids. x \<noteq> y \<and> x \<noteq> a \<and> y \<noteq> a \<and> settled ns t x \<and> settled ns t y \<and>
            exclusive ns A V t x a \<and> exclusive ns A V t y a" if "leaderOf ns t a" "a \<in> ids" for a
  proof -
    from Q3 [OF that(2,1)] obtain x y where xy: "x \<in> ids" "y \<in> ids" "x \<noteq> y" "x \<noteq> a" "y \<noteq> a"
      "committed ns P V t x a" "committed ns P V t y a" by blast
    with fr st show ?thesis by blast
  qed
  show ?thesis unfolding arrivalInv_def using J1 J2 J3 by blast
qed

lemma arrivalInv_step:
  assumes A: "deliveryFacts ns A V q ns' V' n' N"
    and J: "arrivalInv ns A V t" and U: "uniqueLeader ns t"
  shows "arrivalInv ns' A V' t \<and> uniqueLeader ns' t"
proof -
  define k where "k = pto q"
  note a = A [unfolded deliveryFacts_def, folded k_def]
  have k: "k \<in> ids" and len: "length ns = 5" and ns': "ns' = ns[nat k := n']" using a by simp_all
  have S: "\<And>x. x \<in> ids \<Longrightarrow> settled ns t x \<Longrightarrow> settled ns' t x" using a by blast
  have nocand: "state n' = CANDIDATE \<longrightarrow> state (nd ns k) = CANDIDATE \<and> currentTerm n' = currentTerm (nd ns k)"
    using a by simp
  have L: "state n' = LEADER \<and> currentTerm n' = t \<longrightarrow>
           (state (nd ns k) = LEADER \<and> currentTerm (nd ns k) = t) \<or>
           (state (nd ns k) = CANDIDATE \<and> currentTerm (nd ns k) = t \<and>
            (\<exists>x \<in> ids. \<exists>y \<in> ids. x \<noteq> y \<and> supports ns A V t x k \<and> supports ns A V t y k))"
    using a by blast
  have T: "\<And>c x. c \<in> ids \<Longrightarrow> x \<in> ids \<Longrightarrow> candidateOf ns' t c \<and> x \<in> V' c \<Longrightarrow> supports ns A V t x c"
    using a by blast
  have ndk: "nd ns' k = n'" and ndo: "\<And>j. j \<in> ids \<Longrightarrow> j \<noteq> k \<Longrightarrow> nd ns' j = nd ns j"
    using nd_update [OF k _ len] k by (simp_all add: ns')
  have J1: "\<And>x c. x \<in> ids \<Longrightarrow> c \<in> ids \<Longrightarrow> supports ns A V t x c \<Longrightarrow> x \<noteq> c \<and> settled ns t x \<and> exclusive ns A V t x c"
    and J2: "\<And>c. c \<in> ids \<Longrightarrow> candidateOf ns t c \<or> leaderOf ns t c \<Longrightarrow> exclusive ns A V t c c"
    and J3: "\<And>a. a \<in> ids \<Longrightarrow> leaderOf ns t a \<Longrightarrow> \<exists>x \<in> ids. \<exists>y \<in> ids. x \<noteq> y \<and> x \<noteq> a \<and> y \<noteq> a \<and>
            settled ns t x \<and> settled ns t y \<and> exclusive ns A V t x a \<and> exclusive ns A V t y a"
    using J unfolding arrivalInv_def by blast+
  have F1: "supports ns A V t x c" if "supports ns' A V' t x c" "x \<in> ids" "c \<in> ids" for x c
    using that T unfolding supports_def by blast
  have F2: "exclusive ns' A V' t x c" if "exclusive ns A V t x c" "x \<in> ids" for x c
    using that F1 unfolding exclusive_def by blast
  have candD: "candidateOf ns t c" if "candidateOf ns' t c" "c \<in> ids" for c
  proof (cases "c = k")
    case True
    with that nocand ndk show ?thesis by (auto simp: candidateOf_def)
  next
    case False
    with that ndo show ?thesis by (simp add: candidateOf_def)
  qed
  have leadD: "leaderOf ns t c" if "leaderOf ns' t c" "c \<in> ids" "c \<noteq> k" for c
    using that ndo by (simp add: leaderOf_def)
  have leadK: "leaderOf ns t k \<or> (candidateOf ns t k \<and> (\<exists>x \<in> ids. \<exists>y \<in> ids. x \<noteq> y \<and> supports ns A V t x k \<and> supports ns A V t y k))"
    if "leaderOf ns' t k"
    using that L ndk by (auto simp: leaderOf_def candidateOf_def)
  have R1: "x \<noteq> c \<and> settled ns' t x \<and> exclusive ns' A V' t x c"
    if "supports ns' A V' t x c" "x \<in> ids" "c \<in> ids" for x c
    using J1 [OF that(2,3) F1 [OF that]] S F2 that(2) by blast
  have R2: "exclusive ns' A V' t c c" if "candidateOf ns' t c \<or> leaderOf ns' t c" "c \<in> ids" for c
  proof -
    have "candidateOf ns t c \<or> leaderOf ns t c"
      using that candD leadD leadK by (cases "c = k") blast+
    from J2 [OF that(2) this] F2 that(2) show ?thesis by blast
  qed
  have R3: "\<exists>x \<in> ids. \<exists>y \<in> ids. x \<noteq> y \<and> x \<noteq> a \<and> y \<noteq> a \<and> settled ns' t x \<and> settled ns' t y \<and>
            exclusive ns' A V' t x a \<and> exclusive ns' A V' t y a"
    if La: "leaderOf ns' t a" and a: "a \<in> ids" for a
  proof -
    have "leaderOf ns t a \<or> (a = k \<and> (\<exists>x \<in> ids. \<exists>y \<in> ids. x \<noteq> y \<and> supports ns A V t x k \<and> supports ns A V t y k))"
      using La a leadD leadK by (cases "a = k") blast+
    then show ?thesis
    proof
      assume "leaderOf ns t a"
      from J3 [OF a this] obtain x y where "x \<in> ids" "y \<in> ids" "x \<noteq> y" "x \<noteq> a" "y \<noteq> a"
        "settled ns t x" "settled ns t y" "exclusive ns A V t x a" "exclusive ns A V t y a" by blast
      with S F2 show ?thesis by blast
    next
      assume "a = k \<and> (\<exists>x \<in> ids. \<exists>y \<in> ids. x \<noteq> y \<and> supports ns A V t x k \<and> supports ns A V t y k)"
      then obtain x y where xy: "a = k" "x \<in> ids" "y \<in> ids" "x \<noteq> y" "supports ns A V t x k" "supports ns A V t y k"
        by blast
      from J1 [OF xy(2) k xy(5)] J1 [OF xy(3) k xy(6)] S F2 xy show ?thesis by blast
    qed
  qed
  have RU: "a = c" if La: "leaderOf ns' t a" and Lc: "leaderOf ns' t c" and a: "a \<in> ids" and c: "c \<in> ids" for a c
  proof (rule ccontr)
    assume ac: "a \<noteq> c"
    have win: False
      if cd: "candidateOf ns t w" and w: "w \<in> ids" and xy: "x \<in> ids" "y \<in> ids" "x \<noteq> y" "supports ns A V t x w" "supports ns A V t y w"
        and Lo: "leaderOf ns t l" and l: "l \<in> ids" and wl: "w \<noteq> l" for w l x y
    proof -
      from J3 [OF l Lo] obtain x' y' where x'y': "x' \<in> ids" "y' \<in> ids" "x' \<noteq> y'" "x' \<noteq> l" "y' \<noteq> l"
        "settled ns t x'" "settled ns t y'" "exclusive ns A V t x' l" "exclusive ns A V t y' l" by blast
      from J1 [OF xy(1) w xy(4)] J1 [OF xy(2) w xy(5)]
      have xw: "x \<noteq> w" "y \<noteq> w" by simp_all
      from J2 [OF l] Lo have Cl: "exclusive ns A V t l l" by simp
      have "x \<noteq> x'" "x \<noteq> y'" "y \<noteq> x'" "y \<noteq> y'"
        using x'y'(8,9) xy(4,5) w wl unfolding exclusive_def by blast+
      moreover have "x \<noteq> l" "y \<noteq> l"
        using Cl xy(4,5) w wl unfolding exclusive_def by blast+
      moreover have "w \<noteq> x'" "w \<noteq> y'"
        using x'y'(6,7) cd unfolding settled_def by auto
      ultimately have "distinct [w, l, x', y', x, y]"
        using xw wl x'y'(3,4,5) xy(3) by auto
      from six_in_ids [OF w l x'y'(1,2) xy(1,2) this] show False .
    qed
    consider "a = k" | "c = k" | "a \<noteq> k" "c \<noteq> k" by blast
    then show False
    proof cases
      case 1
      with ac have ck: "c \<noteq> k" by simp
      from leadD [OF Lc c ck] have Lc0: "leaderOf ns t c" .
      from leadK La 1 have "leaderOf ns t k \<or> (candidateOf ns t k \<and> (\<exists>x \<in> ids. \<exists>y \<in> ids. x \<noteq> y \<and> supports ns A V t x k \<and> supports ns A V t y k))"
        by simp
      then show False
      proof
        assume "leaderOf ns t k"
        with U Lc0 k c ck show False unfolding uniqueLeader_def by blast
      next
        assume "candidateOf ns t k \<and> (\<exists>x \<in> ids. \<exists>y \<in> ids. x \<noteq> y \<and> supports ns A V t x k \<and> supports ns A V t y k)"
        then show False using win [OF _ k _ _ _ _ _ Lc0 c] ck by blast
      qed
    next
      case 2
      with ac have ak: "a \<noteq> k" by simp
      from leadD [OF La a ak] have La0: "leaderOf ns t a" .
      from leadK Lc 2 have "leaderOf ns t k \<or> (candidateOf ns t k \<and> (\<exists>x \<in> ids. \<exists>y \<in> ids. x \<noteq> y \<and> supports ns A V t x k \<and> supports ns A V t y k))"
        by simp
      then show False
      proof
        assume "leaderOf ns t k"
        with U La0 k a ak show False unfolding uniqueLeader_def by blast
      next
        assume "candidateOf ns t k \<and> (\<exists>x \<in> ids. \<exists>y \<in> ids. x \<noteq> y \<and> supports ns A V t x k \<and> supports ns A V t y k)"
        then show False using win [OF _ k _ _ _ _ _ La0 a] ak by blast
      qed
    next
      case 3
      with leadD La Lc a c U ac show False unfolding uniqueLeader_def by blast
    qed
  qed
  show ?thesis
    unfolding arrivalInv_def uniqueLeader_def using R1 R2 R3 RU by blast
qed

subsection \<open>The delivery loop\<close>

lemma wellFormed_sub: "wellFormed ns P V \<Longrightarrow> A \<subseteq> P \<Longrightarrow> wellFormed ns A V"
  unfolding wellFormed_def by blast

lemma voteInv_antimono:
  assumes "voteInv ns P V t" "A \<subseteq> P"
  shows "voteInv ns A V t"
proof -
  have c: "committed ns A V t x c" if "committed ns P V t x c" for x c
    using that supports_mono [OF assms(2)] unfolding committed_def by blast
  show ?thesis
    using assms(1) supports_mono [OF assms(2)] c unfolding voteInv_def by blast
qed

lemma deliverAll_W:
  assumes "deliverAll rem (ns, sv, V) = Inr (ns', sv', V')" "wellFormed ns P V" "set rem \<subseteq> P"
  shows "\<exists>N. sv' = sv @ N \<and> wellFormed ns' (P \<union> set N) V' \<and> (\<forall>r \<in> set N. \<forall>t'. \<not> isAE t' r) \<and>
           (\<forall>x \<in> ids. \<forall>t'. settled ns t' x \<longrightarrow> settled ns' t' x)"
  using assms
proof (induction rem arbitrary: ns sv V P)
  case Nil
  then show ?case by (intro exI [of _ "[]"]) simp
next
  case (Cons q rem)
  from Cons.prems(1) obtain ns1 sv1 V1 where d: "deliver q (ns, sv, V) = Inr (ns1, sv1, V1)"
    and r: "deliverAll rem (ns1, sv1, V1) = Inr (ns', sv', V')"
    by (auto split: sum.splits)
  have qP: "q \<in> P" using Cons.prems(3) by simp
  from deliver_abs [OF Cons.prems(2) qP d] obtain n1 N1 where
    s: "sv1 = sv @ N1" and a: "deliveryFacts ns P V q ns1 V1 n1 N1" by blast
  note a' = deliveryFactsD [OF a]
  have W1: "wellFormed ns1 (P \<union> set N1) V1" using a' by simp
  have "set rem \<subseteq> P \<union> set N1" using Cons.prems(3) by auto
  from Cons.IH [OF r W1 this] obtain N where
    N: "sv' = sv1 @ N" "wellFormed ns' (P \<union> set N1 \<union> set N) V'" "\<forall>r \<in> set N. \<forall>t'. \<not> isAE t' r"
       "\<forall>x \<in> ids. \<forall>t'. settled ns1 t' x \<longrightarrow> settled ns' t' x" by blast
  have 1: "sv' = sv @ (N1 @ N)" using s N(1) by simp
  have 2: "wellFormed ns' (P \<union> set (N1 @ N)) V'" using N(2) by (simp add: Un_assoc)
  have 3: "\<forall>r \<in> set (N1 @ N). \<forall>t'. \<not> isAE t' r" using a'(5) N(3) by auto
  have 4: "\<forall>x \<in> ids. \<forall>t'. settled ns t' x \<longrightarrow> settled ns' t' x" using a'(6) N(4) by blast
  show ?case using 1 2 3 4 by blast
qed

lemma deliverAll_Q:
  assumes "deliverAll rem (ns, sv, V) = Inr (ns', sv', V')" "wellFormed ns P V" "set rem \<subseteq> P"
    "\<forall>q \<in> set rem. \<not> isAE t q" "voteInv ns P V t" "uniqueLeader ns t"
  shows "\<exists>N. sv' = sv @ N \<and> voteInv ns' (P \<union> set N) V' t \<and> uniqueLeader ns' t"
  using assms
proof (induction rem arbitrary: ns sv V P)
  case Nil
  then show ?case by (intro exI [of _ "[]"]) simp
next
  case (Cons q rem)
  from Cons.prems(1) obtain ns1 sv1 V1 where d: "deliver q (ns, sv, V) = Inr (ns1, sv1, V1)"
    and r: "deliverAll rem (ns1, sv1, V1) = Inr (ns', sv', V')"
    by (auto split: sum.splits)
  have qP: "q \<in> P" and nq: "\<not> isAE t q" using Cons.prems(3,4) by simp_all
  from deliver_abs [OF Cons.prems(2) qP d] obtain n1 N1 where
    s: "sv1 = sv @ N1" and a: "deliveryFacts ns P V q ns1 V1 n1 N1" by blast
  have W1: "wellFormed ns1 (P \<union> set N1) V1" using deliveryFactsD(4) [OF a] .
  from deliver_Q [OF Cons.prems(2) qP nq Cons.prems(5,6) d a]
  have Q1: "voteInv ns1 (P \<union> set N1) V1 t" "uniqueLeader ns1 t" by simp_all
  have sub: "set rem \<subseteq> P \<union> set N1" and nr: "\<forall>q \<in> set rem. \<not> isAE t q"
    using Cons.prems(3,4) by auto
  from Cons.IH [OF r W1 sub nr Q1] obtain N where
    N: "sv' = sv1 @ N" "voteInv ns' (P \<union> set N1 \<union> set N) V' t" "uniqueLeader ns' t" by blast
  have "sv' = sv @ (N1 @ N)" using s N(1) by simp
  moreover have "voteInv ns' (P \<union> set (N1 @ N)) V' t" using N(2) by (simp add: Un_assoc)
  ultimately show ?case using N(3) by blast
qed

lemma deliverAll_J:
  assumes "deliverAll rem (ns, sv, V) = Inr (ns', sv', V')" "wellFormed ns A V" "set rem \<subseteq> A"
    "arrivalInv ns A V t" "uniqueLeader ns t"
    "\<forall>d \<in> ids. settled ns t d \<or> (\<exists>q \<in> set rem. isAE t q \<and> pto q = d)"
  shows "uniqueLeader ns' t \<and> (\<forall>d \<in> ids. settled ns' t d)"
  using assms
proof (induction rem arbitrary: ns sv V)
  case Nil
  then show ?case by simp
next
  case (Cons q rem)
  from Cons.prems(1) obtain ns1 sv1 V1 where d: "deliver q (ns, sv, V) = Inr (ns1, sv1, V1)"
    and r: "deliverAll rem (ns1, sv1, V1) = Inr (ns', sv', V')"
    by (auto split: sum.splits)
  have qA: "q \<in> A" using Cons.prems(3) by simp
  from deliver_abs [OF Cons.prems(2) qA d] obtain n1 N1 where
    a: "deliveryFacts ns A V q ns1 V1 n1 N1" by blast
  note a' = deliveryFactsD [OF a]
  have "wellFormed ns1 (A \<union> set N1) V1" using a'(4) .
  then have W1: "wellFormed ns1 A V1" by (rule wellFormed_sub) simp
  from arrivalInv_step [OF a Cons.prems(4,5)] have J1: "arrivalInv ns1 A V1 t" "uniqueLeader ns1 t" by simp_all
  have S: "\<And>x. x \<in> ids \<Longrightarrow> settled ns t x \<Longrightarrow> settled ns1 t x" using a'(6) by blast
  have No: "isAE t q \<Longrightarrow> settled ns1 t (pto q)" using a'(8) by blast
  have N2: "\<forall>d \<in> ids. settled ns1 t d \<or> (\<exists>q \<in> set rem. isAE t q \<and> pto q = d)"
  proof
    fix d assume d: "d \<in> ids"
    from Cons.prems(6) d consider "settled ns t d" | q' where "q' \<in> set (q # rem)" "isAE t q'" "pto q' = d"
      by blast
    then show "settled ns1 t d \<or> (\<exists>q \<in> set rem. isAE t q \<and> pto q = d)"
    proof cases
      case 1 with S d show ?thesis by simp
    next
      case 2
      then show ?thesis using No by (cases "q' = q") auto
    qed
  qed
  have "set rem \<subseteq> A" using Cons.prems(3) by simp
  from Cons.IH [OF r W1 this J1 N2] show ?case .
qed

lemma deliverAll_settled:
  assumes "deliverAll rem (ns, sv, V) = Inr (ns', sv', V')" "wellFormed ns P V" "set rem \<subseteq> P"
    "\<forall>d \<in> ids. settled ns t d" "uniqueLeader ns t"
  shows "uniqueLeader ns' t"
  using assms
proof (induction rem arbitrary: ns sv V P)
  case Nil
  then show ?case by simp
next
  case (Cons q rem)
  from Cons.prems(1) obtain ns1 sv1 V1 where d: "deliver q (ns, sv, V) = Inr (ns1, sv1, V1)"
    and r: "deliverAll rem (ns1, sv1, V1) = Inr (ns', sv', V')"
    by (auto split: sum.splits)
  have qP: "q \<in> P" using Cons.prems(3) by simp
  from deliver_abs [OF Cons.prems(2) qP d] obtain n1 N1 where
    a: "deliveryFacts ns P V q ns1 V1 n1 N1" by blast
  note a' = deliveryFactsD [OF a]
  define k where "k = pto q"
  have k: "k \<in> ids" and len: "length ns = 5" and ns1: "ns1 = ns[nat k := n1]"
    using a'(1-3) by (simp_all add: k_def)
  have W1: "wellFormed ns1 (P \<union> set N1) V1" using a'(4) .
  have S: "\<forall>d \<in> ids. settled ns1 t d" using a'(6) Cons.prems(4) by blast
  have L: "state n1 = LEADER \<and> currentTerm n1 = t \<longrightarrow>
           (state (nd ns k) = LEADER \<and> currentTerm (nd ns k) = t) \<or>
           (state (nd ns k) = CANDIDATE \<and> currentTerm (nd ns k) = t)"
    using a'(7) unfolding k_def by blast
  have nc: "\<not> candidateOf ns t k" using Cons.prems(4) k by (simp add: settled_def)
  have ld: "leaderOf ns t c" if "leaderOf ns1 t c" "c \<in> ids" for c
    using that L nc nd_update [OF k that(2) len, of n1]
    by (cases "c = k") (auto simp: leaderOf_def candidateOf_def ns1)
  have U1: "uniqueLeader ns1 t"
    using Cons.prems(5) ld unfolding uniqueLeader_def by blast
  have "set rem \<subseteq> P \<union> set N1" using Cons.prems(3) by auto
  from Cons.IH [OF r W1 this S U1] show ?case .
qed

subsection \<open>The maintenance callback\<close>

lemma peers_wf:
  assumes "wfNodes cur" "k \<in> ids"
  shows "nid ` set (filter (\<lambda>n. nid n \<noteq> k \<and> state n \<noteq> CRASHED) cur) = ids - {k}"
proof -
  have len: "length cur = 5" using assms(1) by (simp add: wfNodes_def NODE_COUNT_def)
  have nth: "\<And>j. j < 5 \<Longrightarrow> nid (cur ! j) = int j \<and> state (cur ! j) \<noteq> CRASHED"
  proof -
    fix j :: nat assume "j < 5"
    then have "int j \<in> ids" by (simp add: ids_iff)
    with assms(1) show "nid (cur ! j) = int j \<and> state (cur ! j) \<noteq> CRASHED"
      by (auto simp: wfNodes_def nd_def)
  qed
  show ?thesis
  proof (intro set_eqI iffI)
    fix d assume "d \<in> nid ` set (filter (\<lambda>n. nid n \<noteq> k \<and> state n \<noteq> CRASHED) cur)"
    then obtain m where m: "m \<in> set cur" "nid m = d" "d \<noteq> k" by auto
    then obtain j where "j < length cur" "cur ! j = m" by (auto simp: in_set_conv_nth)
    with nth [of j] len m show "d \<in> ids - {k}" by (auto simp: ids_iff)
  next
    fix d assume d: "d \<in> ids - {k}"
    then have j: "nat d < 5" "int (nat d) = d" by (auto simp: ids_iff)
    from nth [OF j(1)] j(2) have "nid (cur ! nat d) = d" "state (cur ! nat d) \<noteq> CRASHED" by simp_all
    moreover have "cur ! nat d \<in> set cur" using j(1) len by simp
    ultimately show "d \<in> nid ` set (filter (\<lambda>n. nid n \<noteq> k \<and> state n \<noteq> CRASHED) cur)"
      using d by force
  qed
qed

lemma maintainNode_eq:
  assumes "state n \<noteq> CRASHED"
  shows "maintainNode rnd ps cur n =
     (if state n \<noteq> LEADER
      then (if electionTimeout n - 1 \<le> 0
            then (startElection (rnd (nid n)) n,
                  broadcast ps (startElection (rnd (nid n)) n) (requestVoteFor (startElection (rnd (nid n)) n)) cur, True)
            else (n\<lparr> electionTimeout := electionTimeout n - 1 \<rparr>, [], False))
      else (if heartbeatTimer n - 1 \<le> 0
            then (n\<lparr> heartbeatTimer := HEARTBEAT_INTERVAL \<rparr>,
                  heartbeatPackets ps (n\<lparr> heartbeatTimer := HEARTBEAT_INTERVAL \<rparr>) cur, False)
            else (n\<lparr> heartbeatTimer := heartbeatTimer n - 1 \<rparr>, [], False)))"
  using assms
  by (simp add: maintainNode_def electionStep_def heartbeatStep_def Let_def startElection_def)

lemma startElection_view:
  "nid (startElection r n) = nid n" "state (startElection r n) = CANDIDATE"
  "currentTerm (startElection r n) = currentTerm n + 1" "votedFor (startElection r n) = Some (nid n)"
  by (simp_all add: startElection_def)

lemma appendEntriesFor_view:
  "pfrom (appendEntriesFor ps l d) = nid l" "pto (appendEntriesFor ps l d) = d"
  "progress (appendEntriesFor ps l d) = 0" "speed (appendEntriesFor ps l d) = PACKET_SPEED * ps"
  "isAE t (appendEntriesFor ps l d) = (currentTerm l = t)"
  "wfPacket (appendEntriesFor ps l d) = (nid l \<in> ids \<and> d \<in> ids \<and> nid l \<noteq> d)"
  by (simp_all add: appendEntriesFor_def Let_def isAE_def wfPacket_def)

lemma maintainNode_cases:
  assumes wf: "wfNodes cur" and k: "k \<in> ids" and nk: "nid n = k" and live: "state n \<noteq> CRASHED"
    and m: "maintainNode rnd ps cur n = (n', N, reset)"
  shows "(sameRole n n' \<and> N = [] \<and> \<not> reset) \<or>
         (state n \<noteq> LEADER \<and> state n' = CANDIDATE \<and> currentTerm n' = currentTerm n + 1 \<and>
          votedFor n' = Some k \<and> nid n' = k \<and> reset \<and>
          (\<forall>r \<in> set N. wfPacket r \<and> (\<exists>p. payload r = REQUEST_VOTE p))) \<or>
         (sameRole n n' \<and> state n = LEADER \<and> \<not> reset \<and>
          (\<forall>r \<in> set N. wfPacket r \<and> isAE (currentTerm n) r \<and> pfrom r = k \<and> progress r = 0 \<and>
                         speed r = PACKET_SPEED * ps) \<and>
          (\<forall>d \<in> ids. d \<noteq> k \<longrightarrow> (\<exists>r \<in> set N. pto r = d)))"
proof (cases "state n = LEADER")
  case False
  show ?thesis
  proof (cases "electionTimeout n - 1 \<le> 0")
    case True
    define c where "c = startElection (rnd (nid n)) n"
    have "maintainNode rnd ps cur n = (c, broadcast ps c (requestVoteFor c) cur, True)"
      unfolding maintainNode_eq [OF live] c_def using False True by simp
    with m have e: "n' = c" "N = broadcast ps c (requestVoteFor c) cur" "reset" by auto
    have cv: "nid c = k" "state c = CANDIDATE" "currentTerm c = currentTerm n + 1" "votedFor c = Some k"
      using nk by (simp_all add: c_def startElection_view)
    have "\<forall>r \<in> set N. wfPacket r \<and> (\<exists>p. payload r = REQUEST_VOTE p)"
    proof
      fix r assume "r \<in> set N"
      then obtain tg where tg: "tg \<in> set (filter (\<lambda>m. nid m \<noteq> k \<and> state m \<noteq> CRASHED) cur)"
        and r: "r = \<lparr> pfrom = k, pto = nid tg, payload = requestVoteFor c, progress = 0,
                      speed = PACKET_SPEED * ps \<rparr>"
        unfolding e(2) broadcast_def cv(1) by auto
      from tg have "nid tg \<in> ids - {k}" using peers_wf [OF wf k] by blast
      then show "wfPacket r \<and> (\<exists>p. payload r = REQUEST_VOTE p)"
        unfolding r using k by (simp add: wfPacket_def requestVoteFor_def cv(1))
    qed
    then show ?thesis using False e(3) cv unfolding e(1) by blast
  next
    case nt: False
    have "maintainNode rnd ps cur n = (n\<lparr> electionTimeout := electionTimeout n - 1 \<rparr>, [], False)"
      unfolding maintainNode_eq [OF live] using False nt by simp
    with m have e: "n' = n\<lparr> electionTimeout := electionTimeout n - 1 \<rparr>" "N = []" "\<not> reset"
      by auto
    have "sameRole n n'" unfolding e(1) by (simp add: sameRole_def)
    with e(2,3) show ?thesis by blast
  qed
next
  case True
  show ?thesis
  proof (cases "heartbeatTimer n - 1 \<le> 0")
    case nt: False
    have "maintainNode rnd ps cur n = (n\<lparr> heartbeatTimer := heartbeatTimer n - 1 \<rparr>, [], False)"
      unfolding maintainNode_eq [OF live] using True nt by simp
    with m have e: "n' = n\<lparr> heartbeatTimer := heartbeatTimer n - 1 \<rparr>" "N = []" "\<not> reset"
      by auto
    have "sameRole n n'" unfolding e(1) by (simp add: sameRole_def)
    with e(2,3) show ?thesis by blast
  next
    case hb: True
    define l where "l = n\<lparr> heartbeatTimer := HEARTBEAT_INTERVAL \<rparr>"
    have "maintainNode rnd ps cur n = (l, heartbeatPackets ps l cur, False)"
      unfolding maintainNode_eq [OF live] l_def using True hb by simp
    with m have e: "n' = l" "N = heartbeatPackets ps l cur" "\<not> reset" by auto
    have lv: "nid l = k" "currentTerm l = currentTerm n" using nk by (simp_all add: l_def)
    have N: "N = map (\<lambda>peer. appendEntriesFor ps l (nid peer))
                         (filter (\<lambda>n. nid n \<noteq> k \<and> state n \<noteq> CRASHED) cur)"
      unfolding e(2) heartbeatPackets_def lv(1) de_Morgan_disj by (rule refl)
    note peers = peers_wf [OF wf k]
    have N1: "\<forall>r \<in> set N. wfPacket r \<and> isAE (currentTerm n) r \<and> pfrom r = k \<and> progress r = 0 \<and>
                         speed r = PACKET_SPEED * ps"
    proof
      fix r assume "r \<in> set N"
      then obtain tg where tg: "tg \<in> set (filter (\<lambda>n. nid n \<noteq> k \<and> state n \<noteq> CRASHED) cur)"
        and r: "r = appendEntriesFor ps l (nid tg)"
        unfolding N by auto
      from tg peers have "nid tg \<in> ids - {k}" by blast
      then show "wfPacket r \<and> isAE (currentTerm n) r \<and> pfrom r = k \<and> progress r = 0 \<and>
                         speed r = PACKET_SPEED * ps"
        unfolding r using k by (simp add: appendEntriesFor_view lv)
    qed
    have N2: "\<forall>d \<in> ids. d \<noteq> k \<longrightarrow> (\<exists>r \<in> set N. pto r = d)"
    proof (intro ballI impI)
      fix d assume "d \<in> ids" "d \<noteq> k"
      then have "d \<in> ids - {k}" by simp
      with peers obtain tg where tg: "tg \<in> set (filter (\<lambda>n. nid n \<noteq> k \<and> state n \<noteq> CRASHED) cur)"
        "nid tg = d" by (metis (no_types, lifting) imageE)
      then have "appendEntriesFor ps l d \<in> set N"
        unfolding N by (metis (no_types, lifting) image_eqI set_map)
      moreover have "pto (appendEntriesFor ps l d) = d"
        by (simp add: appendEntriesFor_view)
      ultimately show "\<exists>r \<in> set N. pto r = d" by blast
    qed
    have "sameRole n n'" unfolding e(1) l_def by (simp add: sameRole_def)
    with True e(3) N1 N2 show ?thesis by blast
  qed
qed

subsection \<open>Elections and heartbeats preserve the invariant\<close>

lemma voteInv_elect:
  fixes ns :: "RaftNode list" and k t :: int
  defines "n \<equiv> nd ns k"
  assumes k: "k \<in> ids" and len: "length ns = 5"
    and ns': "ns' = ns[nat k := n']"
    and st: "state n' = CANDIDATE" and tm: "currentTerm n' = currentTerm n + 1"
    and vf: "votedFor n' = Some k"
    and V': "V' = V(k := {})"
    and new: "\<forall>r \<in> N. \<exists>p. payload r = REQUEST_VOTE p"
    and Q: "voteInv ns P V t"
  shows "voteInv ns' (P \<union> N) V' t"
proof -
  have ndk: "nd ns' k = n'" and ndo: "\<And>j. j \<in> ids \<Longrightarrow> j \<noteq> k \<Longrightarrow> nd ns' j = nd ns j"
    using nd_update [OF k _ len] k by (simp_all add: ns')
  have Q1: "\<And>x c. x \<in> ids \<Longrightarrow> c \<in> ids \<Longrightarrow> supports ns P V t x c \<Longrightarrow> x \<noteq> c \<and> committed ns P V t x c"
    and Q2: "\<And>c. c \<in> ids \<Longrightarrow> candidateOf ns t c \<or> leaderOf ns t c \<Longrightarrow> committed ns P V t c c"
    and Q3: "\<And>a. a \<in> ids \<Longrightarrow> leaderOf ns t a \<Longrightarrow> \<exists>x \<in> ids. \<exists>y \<in> ids. x \<noteq> y \<and> x \<noteq> a \<and> y \<noteq> a \<and>
            committed ns P V t x a \<and> committed ns P V t y a"
    using Q unfolding voteInv_def by blast+
  have noVR: "\<And>r x c. r \<in> N \<Longrightarrow> \<not> isVR t x c r" using new by (auto simp: isVR_def)
  have F1: "supports ns P V t x c" if "supports ns' (P \<union> N) V' t x c" "c \<in> ids" for x c
  proof (cases "c = k")
    case True
    with that noVR show ?thesis by (auto simp: supports_def V')
  next
    case False
    with that noVR ndo [OF that(2)] show ?thesis by (auto simp: supports_def V' candidateOf_def)
  qed
  have F2: "committed ns' (P \<union> N) V' t x a" if C: "committed ns P V t x a" and x: "x \<in> ids" for x a
  proof (cases "x = k")
    case False
    with C F1 ndo [OF x] show ?thesis unfolding committed_def by auto
  next
    case True
    with C have "t \<le> currentTerm n" by (simp add: committed_def n_def)
    with C F1 True ndk tm show ?thesis unfolding committed_def by auto
  qed
  have leadD: "leaderOf ns t c \<and> c \<noteq> k" if "leaderOf ns' t c" "c \<in> ids" for c
    using that ndo ndk st by (cases "c = k") (auto simp: leaderOf_def)
  have R1: "x \<noteq> c \<and> committed ns' (P \<union> N) V' t x c"
    if "supports ns' (P \<union> N) V' t x c" "x \<in> ids" "c \<in> ids" for x c
    using Q1 [OF that(2,3) F1 [OF that(1,3)]] F2 that(2) by blast
  have R2: "committed ns' (P \<union> N) V' t c c" if cl: "candidateOf ns' t c \<or> leaderOf ns' t c" and c: "c \<in> ids" for c
  proof (cases "c = k")
    case False
    with cl ndo [OF c] have "candidateOf ns t c \<or> leaderOf ns t c" by (simp add: candidateOf_def leaderOf_def)
    from Q2 [OF c this] F2 c show ?thesis by blast
  next
    case True
    with cl ndk st have t: "t = currentTerm n + 1" using tm by (auto simp: candidateOf_def leaderOf_def)
    have "\<not> supports ns' (P \<union> N) V' t k c'" if c': "c' \<in> ids" for c'
    proof
      assume "supports ns' (P \<union> N) V' t k c'"
      from Q1 [OF k c' F1 [OF this c']] have "t \<le> currentTerm n" by (simp add: committed_def n_def)
      with t show False by simp
    qed
    with True ndk tm vf t show ?thesis unfolding committed_def by simp
  qed
  have R3: "\<exists>x \<in> ids. \<exists>y \<in> ids. x \<noteq> y \<and> x \<noteq> a \<and> y \<noteq> a \<and>
            committed ns' (P \<union> N) V' t x a \<and> committed ns' (P \<union> N) V' t y a"
    if "leaderOf ns' t a" "a \<in> ids" for a
  proof -
    from leadD [OF that] Q3 [OF that(2)] obtain x y where "x \<in> ids" "y \<in> ids" "x \<noteq> y" "x \<noteq> a" "y \<noteq> a"
      "committed ns P V t x a" "committed ns P V t y a" by blast
    with F2 show ?thesis by blast
  qed
  show ?thesis unfolding voteInv_def using R1 R2 R3 by blast
qed

lemma batched_add_other:
  assumes "batched P t" "\<forall>r \<in> N. \<not> isAE t r"
  shows "batched (P \<union> N) t"
  using assms unfolding batched_def by blast

lemma batched_add_batch:
  assumes "batched P t"
    and "\<forall>r \<in> N. pfrom r = k \<and> progress r = pr \<and> speed r = sp \<and> isAE t r"
    and "\<forall>d \<in> ids. d \<noteq> k \<longrightarrow> (\<exists>r \<in> N. pto r = d)"
  shows "batched (P \<union> N) t"
  unfolding batched_def
proof (intro ballI impI)
  fix q d assume q: "q \<in> P \<union> N" "isAE t q" and d: "d \<in> ids" "d \<noteq> pfrom q"
  show "\<exists>q' \<in> P \<union> N. isAE t q' \<and> pto q' = d \<and> progress q' = progress q \<and> speed q' = speed q"
  proof (cases "q \<in> P")
    case True
    with assms(1) q d show ?thesis unfolding batched_def by blast
  next
    case False
    with q have qN: "q \<in> N" by simp
    with assms(2) d have "d \<noteq> k" by auto
    with assms(3) d obtain r where "r \<in> N" "pto r = d" by blast
    with assms(2) qN show ?thesis by auto
  qed
qed

subsection \<open>The maintenance loop\<close>

lemma isAE_unique: "isAE t r \<Longrightarrow> isAE t' r \<Longrightarrow> t = t'"
  by (auto simp: isAE_def split: Payload.splits)

lemma clusterInv_mstep:
  assumes clusterInv: "clusterInv ns P V" and wfc: "wfNodes cur" and k: "k \<in> ids"
    and m: "maintainNode rnd ps cur (nd ns k) = (n', N, reset)"
  shows "clusterInv (ns[nat k := n']) (P \<union> set N) (if reset then V(k := {}) else V)"
proof -
  define n where "n = nd ns k"
  define ns' where "ns' = ns[nat k := n']"
  define V' where "V' = (if reset then V(k := {}) else V)"
  have W: "wellFormed ns P V" and SS: "senderSettled ns P"
    and T: "\<And>t. uniqueLeader ns t \<and> (allSettled ns t \<or> (voteInv ns P V t \<and> batched P t))"
    using clusterInv unfolding clusterInv_def by blast+
  have wf: "wfNodes ns" and PW: "\<forall>q \<in> P. wfPacket q" and VI: "\<And>c. V c \<subseteq> ids"
    using W by (auto simp: wellFormed_def)
  have len: "length ns = 5" using wf by (simp add: wfNodes_def NODE_COUNT_def)
  have nk: "nid n = k" and live: "state n \<noteq> CRASHED" using wf k by (simp_all add: wfNodes_def n_def)
  have ndk: "nd ns' k = n'" and ndo: "\<And>j. j \<in> ids \<Longrightarrow> j \<noteq> k \<Longrightarrow> nd ns' j = nd ns j"
    using nd_update [OF k _ len] k by (simp_all add: ns'_def)
  note cases = maintainNode_cases [OF wfc k nk live m [folded n_def]]
  have nid': "nid n' = k" and live': "state n' \<noteq> CRASHED"
    using cases nk live by (auto simp: sameRole_def)
  have NW: "\<forall>r \<in> set N. wfPacket r" using cases by auto
  have noVR: "\<And>r t x c. r \<in> set N \<Longrightarrow> \<not> isVR t x c r"
    using cases by (auto simp: isVR_def isAE_def split: Payload.splits)
  have wf': "wfNodes ns'" unfolding ns'_def using wfNodes_update [OF wf k nid' live'] .
  have V'I: "\<And>c. V' c \<subseteq> ids" using VI by (simp add: V'_def)
  have W': "wellFormed ns' (P \<union> set N) V'" using wf' PW NW V'I by (auto simp: wellFormed_def)
  have view: "(sameRole n n' \<and> \<not> reset) \<or> (state n \<noteq> LEADER \<and> state n' = CANDIDATE \<and> currentTerm n' = currentTerm n + 1
                 \<and> votedFor n' = Some k \<and> reset)"
    using cases by blast
  have S: "settled ns' t x" if "settled ns t x" "x \<in> ids" for t x
  proof (cases "x = k")
    case False with that ndo show ?thesis by (simp add: settled_def candidateOf_def)
  next
    case True
    with that view ndk show ?thesis by (auto simp: settled_def candidateOf_def sameRole_def n_def)
  qed
  have LD: "leaderOf ns t c" if "leaderOf ns' t c" "c \<in> ids" for t c
  proof (cases "c = k")
    case False with that ndo show ?thesis by (simp add: leaderOf_def)
  next
    case True
    with that view ndk show ?thesis by (auto simp: leaderOf_def sameRole_def n_def)
  qed
  have U': "uniqueLeader ns' t" for t
    using T [of t] LD unfolding uniqueLeader_def by blast
  have SS': "senderSettled ns' (P \<union> set N)"
    unfolding senderSettled_def
  proof (intro ballI allI impI)
    fix q t assume q: "q \<in> P \<union> set N" and ae: "isAE t q"
    show "settled ns' t (pfrom q)"
    proof (cases "q \<in> P")
      case True
      with SS ae have "settled ns t (pfrom q)" unfolding senderSettled_def by blast
      moreover have "pfrom q \<in> ids" using PW True by (simp add: wfPacket_def)
      ultimately show ?thesis using S by blast
    next
      case False
      with q have qN: "q \<in> set N" by simp
      from cases qN ae have b: "sameRole n n'" "state n = LEADER" "isAE (currentTerm n) q" "pfrom q = k"
        by (auto simp: isAE_def)
      from isAE_unique [OF ae b(3)] b ndk show ?thesis
        by (simp add: settled_def candidateOf_def sameRole_def)
    qed
  qed
  have QS: "voteInv ns' (P \<union> set N) V' t \<and> batched (P \<union> set N) t" if Q: "voteInv ns P V t" and sb: "batched P t" for t
  proof -
    from cases consider
      (idle) "sameRole n n'" "N = []" "\<not> reset"
      | (elect) "state n \<noteq> LEADER" "state n' = CANDIDATE" "currentTerm n' = currentTerm n + 1"
          "votedFor n' = Some k" "reset" "\<forall>r \<in> set N. \<exists>p. payload r = REQUEST_VOTE p"
      | (beat) "sameRole n n'" "state n = LEADER" "\<not> reset"
          "\<forall>r \<in> set N. isAE (currentTerm n) r \<and> pfrom r = k \<and> progress r = 0 \<and> speed r = PACKET_SPEED * ps"
          "\<forall>d \<in> ids. d \<noteq> k \<longrightarrow> (\<exists>r \<in> set N. pto r = d)"
      by blast
    then show ?thesis
    proof cases
      case elect
      have "voteInv ns' (P \<union> set N) V' t"
        using voteInv_elect [OF k len ns'_def elect(2) elect(3) [unfolded n_def] elect(4) _ elect(6) Q]
        by (simp add: V'_def elect(5))
      moreover have "\<forall>r \<in> set N. \<not> isAE t r" using elect(6) by (auto simp: isAE_def)
      ultimately show ?thesis using batched_add_other [OF sb] by blast
    next
      case idle
      have same: "sameRole n n'" "V' = V" using idle by (simp_all add: V'_def)
      have "voteInv ns' (P \<union> set N) V' t \<and> uniqueLeader ns' t"
      proof (rule voteInv_step [OF k len ns'_def _ _ _ _ _ _ Q])
        show "uniqueLeader ns t" using T by blast
        show "\<forall>c \<in> ids. \<forall>x \<in> ids. candidateOf ns' t c \<and> x \<in> V' c \<longrightarrow> supports ns P V t x c"
        proof (intro ballI impI)
          fix c x assume c: "c \<in> ids" and "candidateOf ns' t c \<and> x \<in> V' c"
          moreover have "candidateOf ns t c" if "candidateOf ns' t c"
            using that same ndk ndo [OF c] by (cases "c = k") (auto simp: candidateOf_def sameRole_def n_def)
          ultimately show "supports ns P V t x c" by (auto simp: supports_def same)
        qed
        show "\<forall>r \<in> set N. \<forall>x \<in> ids. \<forall>c \<in> ids. isVR t x c r \<longrightarrow>
           x = k \<and> c \<noteq> k \<and> currentTerm n' = t \<and> votedFor n' = Some c \<and>
           (currentTerm (nd ns k) = t \<longrightarrow> votedFor (nd ns k) = None \<or> votedFor (nd ns k) = Some c)"
          using noVR by blast
      qed (use same in \<open>auto simp: sameRole_def n_def\<close>)
      then show ?thesis using sb idle(2) by simp
    next
      case beat
      have same: "sameRole n n'" "V' = V" using beat by (simp_all add: V'_def)
      have "voteInv ns' (P \<union> set N) V' t \<and> uniqueLeader ns' t"
      proof (rule voteInv_step [OF k len ns'_def _ _ _ _ _ _ Q])
        show "uniqueLeader ns t" using T by blast
        show "\<forall>c \<in> ids. \<forall>x \<in> ids. candidateOf ns' t c \<and> x \<in> V' c \<longrightarrow> supports ns P V t x c"
        proof (intro ballI impI)
          fix c x assume c: "c \<in> ids" and "candidateOf ns' t c \<and> x \<in> V' c"
          moreover have "candidateOf ns t c" if "candidateOf ns' t c"
            using that same ndk ndo [OF c] by (cases "c = k") (auto simp: candidateOf_def sameRole_def n_def)
          ultimately show "supports ns P V t x c" by (auto simp: supports_def same)
        qed
        show "\<forall>r \<in> set N. \<forall>x \<in> ids. \<forall>c \<in> ids. isVR t x c r \<longrightarrow>
           x = k \<and> c \<noteq> k \<and> currentTerm n' = t \<and> votedFor n' = Some c \<and>
           (currentTerm (nd ns k) = t \<longrightarrow> votedFor (nd ns k) = None \<or> votedFor (nd ns k) = Some c)"
          using noVR by blast
      qed (use same in \<open>auto simp: sameRole_def n_def\<close>)
      moreover have "batched (P \<union> set N) t"
      proof (cases "t = currentTerm n")
        case True
        show ?thesis
          by (rule batched_add_batch [OF sb, of _ k 0 "PACKET_SPEED * ps"]) (use beat True in auto)
      next
        case False
        have "\<forall>r \<in> set N. \<not> isAE t r" using beat(4) False isAE_unique by blast
        from batched_add_other [OF sb this] show ?thesis .
      qed
      ultimately show ?thesis by simp
    qed
  qed
  have AS: "allSettled ns' t" if "allSettled ns t" for t
    using that S unfolding allSettled_def by blast
  show ?thesis
    unfolding clusterInv_def ns'_def [symmetric] V'_def [symmetric]
    using W' SS' U' T QS AS by blast
qed

lemma maintainAll_clusterInv:
  assumes "maintainAll rnd ps cur rest (done, sv, V) = (ns', sv', V')" "wfNodes cur"
    "clusterInv (done @ rest) (set sv) V"
  shows "clusterInv ns' (set sv') V'"
  using assms
proof (induction rest arbitrary: "done" sv V)
  case Nil
  then show ?case by simp
next
  case (Cons node rest)
  obtain node' new reset where m: "maintainNode rnd ps cur node = (node', new, reset)"
    by (cases "maintainNode rnd ps cur node") auto
  let ?L = "done @ node # rest"
  let ?V = "if reset then V(nid node' := {}) else V"
  from Cons.prems(1) m have r: "maintainAll rnd ps cur rest (done @ [node'], sv @ new, ?V) = (ns', sv', V')"
    by simp
  have wf: "wfNodes ?L" using Cons.prems(3) by (simp add: clusterInv_def wellFormed_def)
  then have len: "length ?L = 5" by (simp add: wfNodes_def NODE_COUNT_def)
  define k where "k = int (length done)"
  have k: "k \<in> ids" using len by (simp add: k_def ids_iff)
  have ndk: "nd ?L k = node" by (simp add: nd_def k_def)
  have nk: "nid node = k" "state node \<noteq> CRASHED" using wf k ndk by (auto simp: wfNodes_def)
  have upd: "?L[nat k := node'] = (done @ [node']) @ rest" by (simp add: k_def)
  from maintainNode_cases [OF Cons.prems(2) k nk m] nk have "nid node' = k" by (auto simp: sameRole_def)
  then have V: "?V = (if reset then V(k := {}) else V)" by simp
  have m': "maintainNode rnd ps cur (nd ?L k) = (node', new, reset)"
    using m by (simp only: ndk)
  from clusterInv_mstep [OF Cons.prems(3) Cons.prems(2) k m']
  have "clusterInv ((done @ [node']) @ rest) (set (sv @ new)) ?V"
    unfolding upd V by simp
  from Cons.IH [OF r Cons.prems(2) this] show ?case .
qed

subsection \<open>A tick preserves the invariant\<close>

lemma movePacket_view:
  "pfrom (movePacket q) = pfrom q" "pto (movePacket q) = pto q" "payload (movePacket q) = payload q"
  "speed (movePacket q) = speed q" "progress (movePacket q) = progress q + speed q"
  "wfPacket (movePacket q) = wfPacket q" "isAE t (movePacket q) = isAE t q"
  "isVR t x c (movePacket q) = isVR t x c q"
  by (simp_all add: movePacket_def wfPacket_def isAE_def isVR_def split: Payload.splits)

lemma supports_move: "supports ns (movePacket ` P) V t x c = supports ns P V t x c"
  unfolding supports_def by (simp add: movePacket_view)

lemma voteInv_move: "voteInv ns (movePacket ` P) V t = voteInv ns P V t"
  unfolding voteInv_def committed_def supports_move ..

lemma clusterInv_move:
  assumes "clusterInv ns P V"
  shows "wellFormed ns (movePacket ` P) V" "senderSettled ns (movePacket ` P)"
    "uniqueLeader ns t \<and> (allSettled ns t \<or> (voteInv ns (movePacket ` P) V t \<and> batched (movePacket ` P) t))"
proof -
  show "wellFormed ns (movePacket ` P) V" using assms by (auto simp: clusterInv_def wellFormed_def movePacket_view)
  show "senderSettled ns (movePacket ` P)"
    using assms by (auto simp: clusterInv_def senderSettled_def movePacket_view)
  have "batched (movePacket ` P) t" if "batched P t"
    unfolding batched_def
  proof (intro ballI impI)
    fix q d assume "q \<in> movePacket ` P" "isAE t q" "d \<in> ids" "d \<noteq> pfrom q"
    then obtain q0 where q0: "q0 \<in> P" "q = movePacket q0" "isAE t q0" "d \<noteq> pfrom q0"
      by (auto simp: movePacket_view)
    with that \<open>d \<in> ids\<close> obtain q1 where "q1 \<in> P" "isAE t q1" "pto q1 = d"
      "progress q1 = progress q0" "speed q1 = speed q0" unfolding batched_def by blast
    then show "\<exists>q' \<in> movePacket ` P. isAE t q' \<and> pto q' = d \<and> progress q' = progress q \<and> speed q' = speed q"
      using q0(2) by (intro bexI [of _ "movePacket q1"]) (simp_all add: movePacket_view)
  qed
  then show "uniqueLeader ns t \<and> (allSettled ns t \<or> (voteInv ns (movePacket ` P) V t \<and> batched (movePacket ` P) t))"
    using assms unfolding clusterInv_def voteInv_move by blast
qed

lemma deliverAll_clusterInv:
  fixes M :: "Packet list"
  defines "arr \<equiv> filter (\<lambda>p. progress p \<ge> 100) M"
  defines "sur \<equiv> filter (\<lambda>p. \<not> progress p \<ge> 100) M"
  assumes W: "wellFormed ns (set M) V" and SS: "senderSettled ns (set M)"
    and T: "\<And>t. uniqueLeader ns t \<and> (allSettled ns t \<or> (voteInv ns (set M) V t \<and> batched (set M) t))"
    and d: "deliverAll arr (ns, sur, V) = Inr (ns1, sv1, V1)"
  shows "clusterInv ns1 (set sv1) V1"
proof -
  have arrM: "set arr \<subseteq> set M" and surM: "set sur \<subseteq> set M" by (auto simp: arr_def sur_def)
  from deliverAll_W [OF d W arrM] obtain N where
    N: "sv1 = sur @ N" "wellFormed ns1 (set M \<union> set N) V1" "\<forall>r \<in> set N. \<forall>t'. \<not> isAE t' r"
       "\<forall>x \<in> ids. \<forall>t'. settled ns t' x \<longrightarrow> settled ns1 t' x" by blast
  have sub: "set sv1 \<subseteq> set M \<union> set N" using N(1) surM by auto
  have W1: "wellFormed ns1 (set sv1) V1" by (rule wellFormed_sub [OF N(2) sub])
  have PW: "\<forall>q \<in> set M. wfPacket q" using W by (simp add: wellFormed_def)
  have SS1: "senderSettled ns1 (set sv1)"
    unfolding senderSettled_def
  proof (intro ballI allI impI)
    fix q t assume q: "q \<in> set sv1" and ae: "isAE t q"
    with N(1,3) have qs: "q \<in> set sur" by auto
    with surM SS ae have "settled ns t (pfrom q)" unfolding senderSettled_def by blast
    moreover have "pfrom q \<in> ids" using PW qs surM by (auto simp: wfPacket_def)
    ultimately show "settled ns1 t (pfrom q)" using N(4) by blast
  qed
  have T1: "uniqueLeader ns1 t \<and> (allSettled ns1 t \<or> (voteInv ns1 (set sv1) V1 t \<and> batched (set sv1) t))" for t
  proof (cases "allSettled ns t")
    case True
    then have "\<forall>d \<in> ids. settled ns t d" by (simp add: allSettled_def)
    from deliverAll_settled [OF d W arrM this] T have "uniqueLeader ns1 t" by blast
    moreover have "allSettled ns1 t" using True N(4) unfolding allSettled_def by blast
    ultimately show ?thesis by simp
  next
    case False
    with T have Q: "voteInv ns (set M) V t" and sb: "batched (set M) t" and U: "uniqueLeader ns t" by blast+
    show ?thesis
    proof (cases "\<forall>q \<in> set arr. \<not> isAE t q")
      case True
      from deliverAll_Q [OF d W arrM True Q U] obtain N' where
        N': "sv1 = sur @ N'" "voteInv ns1 (set M \<union> set N') V1 t" "uniqueLeader ns1 t" by blast
      from N'(1) N(1) have "N' = N" by simp
      with N'(2) have "voteInv ns1 (set sv1) V1 t" using voteInv_antimono sub by blast
      moreover have "batched (set sur) t"
        unfolding batched_def
      proof (intro ballI impI)
        fix q d assume q: "q \<in> set sur" "isAE t q" and dd: "d \<in> ids" "d \<noteq> pfrom q"
        with sb surM obtain q' where q': "q' \<in> set M" "isAE t q'" "pto q' = d"
          "progress q' = progress q" "speed q' = speed q" unfolding batched_def by blast
        with True have "q' \<notin> set arr" by blast
        with q'(1) have "q' \<in> set sur" by (simp add: arr_def sur_def)
        with q' show "\<exists>q' \<in> set sur. isAE t q' \<and> pto q' = d \<and> progress q' = progress q \<and> speed q' = speed q"
          by blast
      qed
      then have "batched (set sv1) t"
        using batched_add_other [of "set sur" t "set N"] N(1,3) by simp
      ultimately show ?thesis using N'(3) by simp
    next
      case hit: False
      then obtain q where q: "q \<in> set arr" "isAE t q" by blast
      have J: "arrivalInv ns (set arr) V t" by (rule voteInv_arrivalInv [OF Q arrM])
      have WA: "wellFormed ns (set arr) V" by (rule wellFormed_sub [OF W arrM])
      have N2: "\<forall>d \<in> ids. settled ns t d \<or> (\<exists>q \<in> set arr. isAE t q \<and> pto q = d)"
      proof
        fix d assume dd: "d \<in> ids"
        show "settled ns t d \<or> (\<exists>q \<in> set arr. isAE t q \<and> pto q = d)"
        proof (cases "d = pfrom q")
          case True
          with SS q arrM show ?thesis unfolding senderSettled_def by blast
        next
          case False
          with sb q arrM dd obtain q' where q': "q' \<in> set M" "isAE t q'" "pto q' = d"
            "progress q' = progress q" unfolding batched_def by blast
          with q(1) have "q' \<in> set arr" by (simp add: arr_def)
          with q' show ?thesis by blast
        qed
      qed
      from deliverAll_J [OF d WA _ J U N2] show ?thesis by (simp add: allSettled_def)
    qed
  qed
  show ?thesis unfolding clusterInv_def using W1 SS1 T1 by blast
qed

lemma tick_stateInv:
  assumes "stateInv st" "tick paused ps rnd st = Inr st'"
  shows "stateInv st'"
proof (cases paused)
  case True
  with assms show ?thesis by (simp add: tick_def)
next
  case False
  let ?M = "map movePacket (packets st)"
  from assms(2) False obtain w where
    d0: "deliverAll (arrivedPackets (packets st)) (nodes st, survivingPackets (packets st), votesReceived st)
          = Inr w"
    by (cases "deliverAll (arrivedPackets (packets st)) (nodes st, survivingPackets (packets st), votesReceived st)")
       (simp_all add: tick_def)
  obtain ns1 sv1 V1 where w: "w = (ns1, sv1, V1)" by (cases w) auto
  note d = d0 [unfolded w]
  obtain ns2 sv2 V2 where m2: "maintainAll rnd ps ns1 ns1 ([], sv1, V1) = (ns2, sv2, V2)"
    by (cases "maintainAll rnd ps ns1 ns1 ([], sv1, V1)") auto
  from assms(2) False have st': "st' = \<lparr> nodes = ns2, packets = sv2, votesReceived = V2 \<rparr>"
    by (simp add: tick_def d m2)
  have sM: "set ?M = movePacket ` set (packets st)" by simp
  note mv = clusterInv_move [OF assms(1) [unfolded stateInv_def], folded sM]
  have "clusterInv ns1 (set sv1) V1"
    by (rule deliverAll_clusterInv [OF mv(1) mv(2) mv(3) d [unfolded arrivedPackets_def survivingPackets_def]])
  moreover from this have "wfNodes ns1" by (simp add: clusterInv_def wellFormed_def)
  ultimately have "clusterInv ns2 (set sv2) V2"
    using maintainAll_clusterInv [OF m2] by simp
  then show ?thesis by (simp add: stateInv_def st')
qed

subsection \<open>Election safety in every reachable state\<close>

lemma nth_initial:
  "k \<in> ids \<Longrightarrow> nd (nodes (initialState r1 r2)) k = createNode k (r1 k) (r2 k)"
proof -
  assume "k \<in> ids"
  then have "k = 0 \<or> k = 1 \<or> k = 2 \<or> k = 3 \<or> k = 4"
    unfolding ids_def NODE_COUNT_def by auto
  then show ?thesis by (auto simp: initial_nodes nd_def)
qed

lemma initial_stateInv: "stateInv (initialState r1 r2)"
proof -
  let ?ns = "nodes (initialState r1 r2)"
  have n: "\<And>k. k \<in> ids \<Longrightarrow> nd ?ns k = createNode k (r1 k) (r2 k)" by (rule nth_initial)
  have len: "int (length ?ns) = NODE_COUNT" by (simp add: initialState_def NODE_COUNT_def)
  have W: "wellFormed ?ns {} (\<lambda>_. {})"
    using len by (simp add: wellFormed_def wfNodes_def n createNode_def)
  have nl: "\<not> leaderOf ?ns t c" "\<not> candidateOf ?ns t c" if "c \<in> ids" for t c
    using that by (simp_all add: leaderOf_def candidateOf_def n createNode_def)
  have U: "uniqueLeader ?ns t" for t using nl by (simp add: uniqueLeader_def)
  have S: "\<not> supports ?ns {} (\<lambda>_. {}) t x c" for t x c by (simp add: supports_def)
  have Q: "voteInv ?ns {} (\<lambda>_. {}) t" for t using nl by (simp add: voteInv_def S)
  have "clusterInv ?ns {} (\<lambda>_. {})"
    unfolding clusterInv_def using W U Q by (simp add: senderSettled_def batched_def)
  then show ?thesis by (simp add: stateInv_def initialState_def)
qed

lemma reachable_stateInv: "reachable st \<Longrightarrow> stateInv st"
  by (induction rule: reachable.induct) (auto intro: initial_stateInv tick_stateInv)

lemma length_filter_le_one:
  assumes "\<And>i j. i < length xs \<Longrightarrow> j < length xs \<Longrightarrow> P (xs ! i) \<Longrightarrow> P (xs ! j) \<Longrightarrow> i = j"
  shows "length (filter P xs) \<le> 1"
proof -
  have "card {i. i < length xs \<and> P (xs ! i)} \<le> 1"
    by (rule card_le_Suc0_iff_eq [THEN iffD2, unfolded One_nat_def [symmetric]]) (use assms in auto)
  then show ?thesis by (simp add: length_filter_conv_card)
qed

lemma stateInv_leaders:
  assumes "stateInv st"
  shows "length (filter (\<lambda>n. state n = LEADER \<and> currentTerm n = t) (nodes st)) \<le> 1"
proof (rule length_filter_le_one)
  fix i j
  assume a: "i < length (nodes st)" "j < length (nodes st)"
    "state (nodes st ! i) = LEADER \<and> currentTerm (nodes st ! i) = t"
    "state (nodes st ! j) = LEADER \<and> currentTerm (nodes st ! j) = t"
  from assms have len: "int (length (nodes st)) = NODE_COUNT" and U: "uniqueLeader (nodes st) t"
    by (simp_all add: stateInv_def clusterInv_def wellFormed_def wfNodes_def)
  from a(1,2) len have "int i \<in> ids" "int j \<in> ids" by (simp_all add: ids_def)
  moreover from a(3,4) have "leaderOf (nodes st) t (int i)" "leaderOf (nodes st) t (int j)"
    by (simp_all add: leaderOf_def nd_def)
  ultimately have "int i = int j" using U unfolding uniqueLeader_def by blast
  then show "i = j" by simp
qed

text \<open>
  Claim C1 (Election Safety). In every state reachable by ticks from the initial cluster,
  for every term \<open>t\<close>, at most one node of the array is in role Leader with
  \<open>currentTerm = t\<close>: no sequence of packet deliveries and timer expiries makes two
  different nodes Leader in the same term. This holds for all timeout draws and playback
  speeds.
\<close>

theorem election_safety:
  "reachable st \<Longrightarrow> length (filter (\<lambda>n. state n = LEADER \<and> currentTerm n = t) (nodes st)) \<le> 1"
  by (rule stateInv_leaders [OF reachable_stateInv])

subsection \<open>Quiet ticks\<close>

lemma maintainAll_quiet:
  "\<forall>n \<in> set rest. state n \<noteq> LEADER \<and> state n \<noteq> CRASHED \<and> 1 < electionTimeout n \<Longrightarrow>
   maintainAll rnd ps cur rest (done, sv, V) =
     (done @ map (\<lambda>n. n\<lparr> electionTimeout := electionTimeout n - 1 \<rparr>) rest, sv, V)"
proof (induction rest arbitrary: "done")
  case Nil
  then show ?case by simp
next
  case (Cons n rest)
  then have "maintainNode rnd ps cur n = (n\<lparr> electionTimeout := electionTimeout n - 1 \<rparr>, [], False)"
    by (simp add: maintainNode_def electionStep_def heartbeatStep_def)
  with Cons show ?case by simp
qed

lemma tick_quiet:
  assumes "quiet 1 st"
  shows "tick False ps rnd st = Inr (advance 1 st)"
proof -
  have a: "arrivedPackets (packets st) = []"
    using assms by (auto simp: arrivedPackets_def quiet_def movePacket_def filter_empty_conv)
  have "filter (\<lambda>p. \<not> 100 \<le> progress p) (map movePacket (packets st)) = map movePacket (packets st)"
    using assms by (auto simp: quiet_def movePacket_def filter_id_conv)
  then have s: "survivingPackets (packets st) = map (\<lambda>p. p\<lparr> progress := progress p + of_nat 1 * speed p \<rparr>) (packets st)"
    by (simp add: survivingPackets_def movePacket_def)
  have m: "maintainAll rnd ps (nodes st) (nodes st) ([], sv, V) =
        (map (\<lambda>n. n\<lparr> electionTimeout := electionTimeout n - 1 \<rparr>) (nodes st), sv, V)" for sv V
    using maintainAll_quiet [of "nodes st" rnd ps "nodes st" "[]" sv V] assms by (simp add: quiet_def)
  show ?thesis
    unfolding tick_def a s by (simp add: m advance_def)
qed

lemma advance_Suc: "advance 1 (advance k st) = advance (Suc k) st"
  by (simp add: advance_def comp_def algebra_simps)

lemma quiet_advance:
  assumes "quiet (Suc k) st"
  shows "quiet k st" "quiet 1 (advance k st)"
proof -
  have "progress p + of_nat k * speed p < 100"
    if "0 \<le> speed p" "progress p + of_nat (Suc k) * speed p < 100" for p :: Packet
  proof -
    have "of_nat k * speed p \<le> of_nat (Suc k) * speed p"
      using that(1) by (intro mult_right_mono) simp_all
    with that(2) show ?thesis by linarith
  qed
  with assms show "quiet k st" by (auto simp: quiet_def)
  show "quiet 1 (advance k st)"
    using assms by (auto simp: quiet_def advance_def algebra_simps)
qed

lemma reachable_advance: "reachable st \<Longrightarrow> quiet k st \<Longrightarrow> reachable (advance k st)"
proof (induction k)
  case 0
  then show ?case by (simp add: advance_def)
next
  case (Suc k)
  note q = quiet_advance [OF Suc.prems(2)]
  from Suc.IH [OF Suc.prems(1) q(1)] have "reachable (advance k st)" .
  from reachable.step [OF this tick_quiet [OF q(2)]] show ?case by (simp only: advance_Suc)
qed

subsection \<open>An election from the initial cluster\<close>

lemma start_election:
  "tick False 1 laterDraws (advance 149 (initialState firstDraws laterDraws)) = Inr electionStarted"
  by (simp add: tick_def advance_def initialState_def NODE_COUNT_def upto.simps firstDraws_def
      laterDraws_def createNode_def arrivedPackets_def survivingPackets_def maintainNode_def
      electionStep_def heartbeatStep_def broadcast_def requestVoteFor_def lastLogIndexOf_def
      lastLogTermOf_def PACKET_SPEED_def electionStarted_def fun_upd_idem)

lemma grant_votes: "tick False 1 laterDraws (advance 66 electionStarted) = Inr votesGranted"
  by (simp add: tick_def advance_def electionStarted_def votesGranted_def createNode_def
      arrivedPackets_def survivingPackets_def movePacket_def deliver_def
      processRequestVote_def adoptTerm_def logIsUpToDate_def lastLogIndexOf_def lastLogTermOf_def
      maintainNode_def electionStep_def heartbeatStep_def PACKET_SPEED_def)

lemma elect_leader: "tick False 1 laterDraws (advance 66 votesGranted) = Inr leaderElected"
  by (simp add: tick_def advance_def votesGranted_def leaderElected_def createNode_def
      arrivedPackets_def survivingPackets_def movePacket_def deliver_def
      onVoteResponse_def processVoteResponse_def adoptTerm_def becomeLeader_def NODE_COUNT_def
      maintainNode_def electionStep_def heartbeatStep_def heartbeatPackets_def
      appendEntriesFor_def orOne_def jsSlice_def HEARTBEAT_INTERVAL_def PACKET_SPEED_def fun_upd_idem)

lemma leaderElected_reachable: "reachable leaderElected"
proof -
  have "quiet 149 (initialState firstDraws laterDraws)"
    by (simp add: quiet_def initial_nodes createNode_def firstDraws_def initialState_def)
  from reachable.step [OF reachable_advance [OF reachable.init this] start_election]
  have "reachable electionStarted" .
  moreover have "quiet 66 electionStarted"
    by (simp add: quiet_def electionStarted_def createNode_def)
  ultimately have "reachable votesGranted"
    using reachable.step [OF reachable_advance grant_votes] by blast
  moreover have "quiet 66 votesGranted"
    by (simp add: quiet_def votesGranted_def createNode_def)
  ultimately show ?thesis
    using reachable.step [OF reachable_advance elect_leader] by blast
qed

text \<open>
  The state after tick 284 of the election above is reachable and node 0 is the leader of
  term 1 there; by the theorem it is the only one.
\<close>

theorem election_safety_witness:
  "reachable leaderElected \<and> state (nodes leaderElected ! 0) = LEADER \<and>
   currentTerm (nodes leaderElected ! 0) = 1 \<and>
   length (filter (\<lambda>n. state n = LEADER \<and> currentTerm n = 1) (nodes leaderElected)) \<le> 1"
proof -
  have "length (filter (\<lambda>n. state n = LEADER \<and> currentTerm n = 1) (nodes leaderElected)) \<le> 1"
    by (rule election_safety [OF leaderElected_reachable])
  moreover have "state (nodes leaderElected ! 0) = LEADER \<and> currentTerm (nodes leaderElected ! 0) = 1"
    by (simp add: leaderElected_def)
  ultimately show ?thesis using leaderElected_reachable by simp
qed

section \<open>Commit index in the user-driven simulation\<close>

subsection \<open>Calm ticks and schedules\<close>

lemma maintainNode_calm:
  "calmNode 1 n \<Longrightarrow> maintainNode rnd ps cur n = (ageNode 1 n, [], False)"
  by (simp add: calmNode_def ageNode_def maintainNode_def electionStep_def heartbeatStep_def
      split: if_splits)

lemma maintainAll_calm:
  "list_all (calmNode 1) rest \<Longrightarrow>
   maintainAll rnd ps cur rest (done, sv, V) = (done @ map (ageNode 1) rest, sv, V)"
proof (induction rest arbitrary: "done")
  case Nil
  then show ?case by simp
next
  case (Cons n rest)
  then have "maintainNode rnd ps cur n = (ageNode 1 n, [], False)"
    by (simp add: maintainNode_calm)
  with Cons show ?case by simp
qed

lemma tick_calm:
  assumes "calm 1 st"
  shows "tick False ps rnd st = Inr (elapse 1 st)"
proof -
  have a: "arrivedPackets (packets st) = []"
    using assms by (auto simp: arrivedPackets_def calm_def movePacket_def filter_empty_conv list_all_iff)
  have "filter (\<lambda>p. \<not> 100 \<le> progress p) (map movePacket (packets st)) = map movePacket (packets st)"
    using assms by (auto simp: calm_def movePacket_def filter_id_conv list_all_iff)
  then have s: "survivingPackets (packets st) = map (\<lambda>p. p\<lparr> progress := progress p + of_nat 1 * speed p \<rparr>) (packets st)"
    by (simp add: survivingPackets_def movePacket_def)
  have m: "maintainAll rnd ps (nodes st) (nodes st) ([], sv, V) =
        (map (ageNode 1) (nodes st), sv, V)" for sv V
    using maintainAll_calm [of "nodes st" rnd ps "nodes st" "[]" sv V] assms by (simp add: calm_def)
  show ?thesis
    unfolding tick_def a s by (simp add: m elapse_def)
qed

lemma ageNode_ageNode: "ageNode k (ageNode (Suc 0) n) = ageNode (Suc k) n"
  by (simp add: ageNode_def)

lemma elapse_elapse: "elapse k (elapse (Suc 0) st) = elapse (Suc k) st"
  by (simp add: elapse_def comp_def algebra_simps ageNode_ageNode)

lemma calm_Suc:
  assumes "calm (Suc k) st"
  shows "calm 1 st" "calm k (elapse 1 st)"
proof -
  have p1: "progress p + of_nat 1 * speed p < 100"
    if "0 \<le> speed p" "progress p + of_nat (Suc k) * speed p < 100" for p :: Packet
  proof -
    have "of_nat 1 * speed p \<le> of_nat (Suc k) * speed p"
      using that(1) by (intro mult_right_mono) simp_all
    with that(2) show ?thesis by linarith
  qed
  have n1: "calmNode 1 n" if "calmNode (Suc k) n" for n
    using that by (simp add: calmNode_def split: if_splits)
  show "calm 1 st"
    using assms p1 n1 unfolding calm_def list_all_iff by blast
  have "calmNode k (ageNode 1 n)" if "calmNode (Suc k) n" for n
    using that by (simp add: calmNode_def ageNode_def split: if_splits)
  then show "calm k (elapse 1 st)"
    using assms by (auto simp: calm_def elapse_def algebra_simps list_all_iff)
qed

lemma ticks_calm: "calm k st \<Longrightarrow> ticks k ps rnd st = Inr (elapse k st)"
proof (induction k arbitrary: st)
  case 0
  then show ?case by (simp add: elapse_def ageNode_def map_idI)
next
  case (Suc k)
  note c = calm_Suc [OF Suc.prems]
  show ?case
    unfolding ticks.simps tick_calm [OF c(1)] sum.case Suc.IH [OF c(2)]
    using elapse_elapse [of k st] by simp
qed

lemma ticks_add: "ticks (j + k) ps rnd st = (case ticks j ps rnd st of Inl e \<Rightarrow> Inl e | Inr st' \<Rightarrow> ticks k ps rnd st')"
  by (induction j arbitrary: st) (simp_all split: sum.splits)

lemma ticks_last:
  assumes "0 < k" "calm (k - 1) st"
  shows "ticks k ps rnd st = tick False ps rnd (elapse (k - 1) st)"
proof -
  from assms(1) have k: "k = (k - 1) + 1" by simp
  have "ticks k ps rnd st = ticks ((k - 1) + 1) ps rnd st" using k by simp
  also have "\<dots> = tick False ps rnd (elapse (k - 1) st)"
    unfolding ticks_add ticks_calm [OF assms(2)] by (simp split: sum.splits)
  finally show ?thesis .
qed

lemma ticks_reachable:
  "reachableOps st \<Longrightarrow> ps \<in> set sliderValues \<Longrightarrow> \<forall>i. validTimeout (rnd i) \<Longrightarrow>
   ticks k ps rnd st = Inr st' \<Longrightarrow> reachableOps st'"
proof (induction k arbitrary: st)
  case 0
  then show ?case by simp
next
  case (Suc k)
  from Suc.prems(4) obtain st1 where t: "tick False ps rnd st = Inr st1" and r: "ticks k ps rnd st1 = Inr st'"
    by (auto split: sum.splits)
  from reachableOps.ticked [OF Suc.prems(1,2,3) t] have "reachableOps st1" .
  from Suc.IH [OF this Suc.prems(2,3) r] show ?case .
qed

lemma run_reachable:
  "reachableOps st \<Longrightarrow> list_all validAction as \<Longrightarrow> run as st = Inr st' \<Longrightarrow> reachableOps st'"
proof (induction as arbitrary: st)
  case Nil
  then show ?case by simp
next
  case (Cons a as)
  show ?case
  proof (cases a)
    case (Ticks k ps rnd)
    with Cons.prems(3) obtain st1 where t: "ticks k ps rnd st = Inr st1" and r: "run as st1 = Inr st'"
      by (auto split: sum.splits)
    from Cons.prems(2) Ticks have "ps \<in> set sliderValues" "\<forall>i. validTimeout (rnd i)" "list_all validAction as"
      by simp_all
    from Cons.IH [OF ticks_reachable [OF Cons.prems(1) this(1,2) t] this(3) r] show ?thesis .
  next
    case (Toggle i r)
    with Cons.prems have "reachableOps (toggleNodeState i r st)" "list_all validAction as"
      "run as (toggleNodeState i r st) = Inr st'"
      by (simp_all add: reachableOps.toggled)
    from Cons.IH [OF this] show ?thesis .
  next
    case (Propose cmd)
    with Cons.prems have "reachableOps (proposeLog cmd st)" "list_all validAction as"
      "run as (proposeLog cmd st) = Inr st'"
      by (simp_all add: reachableOps.proposed)
    from Cons.IH [OF this] show ?thesis .
  qed
qed

lemma run_append:
  "run (as @ bs) st = (case run as st of Inl e \<Rightarrow> Inl e | Inr st' \<Rightarrow> run bs st')"
proof (induction as arbitrary: st)
  case Nil
  then show ?case by simp
next
  case (Cons a as)
  then show ?case by (cases a) (simp_all split: sum.splits)
qed

subsection \<open>The schedule, executed\<close>

text \<open>Each piece of the schedule, executed: the engine computes the next state.\<close>

lemmas engine_defs =
  tick_def arrivedPackets_def survivingPackets_def movePacket_def deliver_def
  processRequestVote_def adoptTerm_def logIsUpToDate_def lastLogIndexOf_def lastLogTermOf_def
  onVoteResponse_def processVoteResponse_def becomeLeader_def NODE_COUNT_def
  processAppendEntries_def heardFrom_def logOk_def appendReply_def
  onAppendResponse_def advanceCommit_def majorityN_def nthOpt_def sortDescending_def orOne_def
  maintainNode_def electionStep_def heartbeatStep_def heartbeatPackets_def appendEntriesFor_def
  broadcast_def requestVoteFor_def jsSlice_def HEARTBEAT_INTERVAL_def PACKET_SPEED_def
  toggleNodeState_def toggleNode_def proposeLog_def
  calm_def calmNode_def elapse_def ageNode_def draws_def fun_upd_idem ticks_last

lemma run_to_ledBy0: "run to_ledBy0 (initialState firstDraws laterDraws) = Inr ledBy0"
  by (simp add: to_ledBy0_def ledBy0_def engine_defs initialState_def upto.simps createNode_def firstDraws_def laterDraws_def)

lemma run_to_ledBy1: "run to_ledBy1 ledBy0 = Inr ledBy1"
  by (simp add: to_ledBy1_def ledBy1_def engine_defs ledBy0_def)

lemma run_to_ledBy2: "run to_ledBy2 ledBy1 = Inr ledBy2"
  by (simp add: to_ledBy2_def ledBy2_def engine_defs ledBy1_def)

lemma run_to_term2LedBy2: "run to_term2LedBy2 ledBy2 = Inr term2LedBy2"
  by (simp add: to_term2LedBy2_def term2LedBy2_def engine_defs ledBy2_def)

lemma run_to_term2LedBy0: "run to_term2LedBy0 term2LedBy2 = Inr term2LedBy0"
  by (simp add: to_term2LedBy0_def term2LedBy0_def engine_defs term2LedBy2_def)

lemma run_to_committed2: "run to_committed2 term2LedBy0 = Inr committed2"
  by (simp add: to_committed2_def committed2_def engine_defs term2LedBy0_def)

lemma run_to_truncated: "run to_truncated committed2 = Inr truncated"
  by (simp add: to_truncated_def truncated_def engine_defs committed2_def)

lemma run_to_beforeDecrease: "run to_beforeDecrease truncated = Inr beforeDecrease"
  by (simp add: to_beforeDecrease_def beforeDecrease_def engine_defs truncated_def)

lemma run_to_afterDecrease: "run to_afterDecrease beforeDecrease = Inr afterDecrease"
  by (simp add: to_afterDecrease_def afterDecrease_def engine_defs beforeDecrease_def)

subsection \<open>The commit index of a follower decreases\<close>

text \<open>
  What is right in general: on the leader the commit index only grows, on a follower it
  does not fall as long as it is within the updated log, and the control operations leave
  it alone.
\<close>

lemma onAppendResponse_commitIndex_mono:
  "state node \<noteq> CRASHED \<Longrightarrow> commitIndex node \<le> commitIndex (onAppendResponse node sender p)"
  by (simp add: onAppendResponse_def advanceCommit_def majorityN_def
      split: option.splits if_splits)

lemma processAppendEntries_commitIndex:
  assumes "processAppendEntries node p = Inr (u, r)"
  shows "commitIndex u =
           (if success (case payload r of APPEND_RESPONSE a \<Rightarrow> a) \<and> commitIndex node < leaderCommit p
            then min (leaderCommit p) (int (length (nlog u)) - 1) else commitIndex node)"
    and "commitIndex node \<le> int (length (nlog u)) - 1 \<Longrightarrow> commitIndex node \<le> commitIndex u"
  using assms
  by (auto simp: processAppendEntries_def Let_def heardFrom_def appendReply_def split: if_splits)

lemma map_update_same:
  "k < length xs \<Longrightarrow> f v = f (xs ! k) \<Longrightarrow> map f (xs[k := v]) = map f xs"
  by (simp add: map_update list_update_same_conv)

lemma control_commitIndex:
  "map commitIndex (nodes (toggleNodeState i r st)) = map commitIndex (nodes st)"
  "map commitIndex (nodes (proposeLog cmd st)) = map commitIndex (nodes st)"
proof -
  show "map commitIndex (nodes (toggleNodeState i r st)) = map commitIndex (nodes st)"
  proof (cases "findIndex (\<lambda>n. nid n = i) (nodes st)")
    case None
    then show ?thesis by (simp add: toggleNodeState_def)
  next
    case (Some k)
    then have "k < length (nodes st)" by (simp add: findIndex_Some)
    then show ?thesis
      using Some by (simp add: toggleNodeState_def toggleNode_def map_update_same)
  qed
  show "map commitIndex (nodes (proposeLog cmd st)) = map commitIndex (nodes st)"
  proof (cases "findIndex (\<lambda>n. state n = LEADER) (nodes st)")
    case None
    then show ?thesis by (simp add: proposeLog_def)
  next
    case (Some k)
    then have "k < length (nodes st)" by (simp add: findIndex_Some)
    then show ?thesis
      using Some by (simp add: proposeLog_def Let_def map_update_same)
  qed
qed

text \<open>The schedule consists of user actions only, so all its states are reachable.\<close>

lemma scripts_valid:
  "list_all validAction to_ledBy0"
  "list_all validAction to_ledBy1"
  "list_all validAction to_ledBy2"
  "list_all validAction to_term2LedBy2"
  "list_all validAction to_term2LedBy0"
  "list_all validAction to_committed2"
  "list_all validAction to_truncated"
  "list_all validAction to_beforeDecrease"
  "list_all validAction to_afterDecrease"
  by (simp_all add: to_ledBy0_def to_ledBy1_def to_ledBy2_def to_term2LedBy2_def to_term2LedBy0_def to_committed2_def to_truncated_def to_beforeDecrease_def to_afterDecrease_def
      sliderValues_def commands_def validTimeout_def draws_def MIN_ELECTION_TIMEOUT_def MAX_ELECTION_TIMEOUT_def)

lemma initial_reachableOps: "reachableOps (initialState firstDraws laterDraws)"
  by (rule reachableOps.initial)
     (simp add: validTimeout_def firstDraws_def laterDraws_def MIN_ELECTION_TIMEOUT_def MAX_ELECTION_TIMEOUT_def)

lemma ledBy0_reachable: "reachableOps ledBy0"
  by (rule run_reachable [OF initial_reachableOps scripts_valid(1) run_to_ledBy0])

lemma ledBy1_reachable: "reachableOps ledBy1"
  by (rule run_reachable [OF ledBy0_reachable scripts_valid(2) run_to_ledBy1])

lemma ledBy2_reachable: "reachableOps ledBy2"
  by (rule run_reachable [OF ledBy1_reachable scripts_valid(3) run_to_ledBy2])

lemma term2LedBy2_reachable: "reachableOps term2LedBy2"
  by (rule run_reachable [OF ledBy2_reachable scripts_valid(4) run_to_term2LedBy2])

lemma term2LedBy0_reachable: "reachableOps term2LedBy0"
  by (rule run_reachable [OF term2LedBy2_reachable scripts_valid(5) run_to_term2LedBy0])

lemma committed2_reachable: "reachableOps committed2"
  by (rule run_reachable [OF term2LedBy0_reachable scripts_valid(6) run_to_committed2])

lemma truncated_reachable: "reachableOps truncated"
  by (rule run_reachable [OF committed2_reachable scripts_valid(7) run_to_truncated])

lemma beforeDecrease_reachable: "reachableOps beforeDecrease"
  by (rule run_reachable [OF truncated_reachable scripts_valid(8) run_to_beforeDecrease])

lemma afterDecrease_reachable: "reachableOps afterDecrease"
  by (rule run_reachable [OF beforeDecrease_reachable scripts_valid(9) run_to_afterDecrease])

text \<open>
  C6. The commit index of a live node decreases in a reachable execution. In the schedule
  above nodes 0, 1 and 2 each win term 1 in turn (the next one is crashed until the previous
  one has sent a heartbeat, which clears the votes of nodes 3 and 4, and has been crashed),
  so each holds an own entry of term 1 at index 0; node 2 gets three entries, replicates two
  to node 1, wins term 2 and replicates a fourth entry of term 2. Node 0, still in term 1
  with one entry, then wins term 2 as well. Its first two heartbeats carry no entries and
  are acknowledged by nodes 1 and 2 with their own last index 3; its third heartbeat,
  sent at the slowest slider speed, carries the first entry it was given in term 2. With
  two more entries node 0 commits index 2 and then index 3 on those acknowledgements; node
  2 learns commit index 2, node 1 commit index 3 (node 2 is crashed while that heartbeat is
  sent). Then the slow heartbeat arrives and truncates both logs to two entries, leaving the
  commit indices 2 and 3 beyond the last index 1. Node 0 is crashed, node 1 wins term 3 and
  its first heartbeat carries \<open>leaderCommit = 3\<close>: in tick 1783 node 2, a live follower
  throughout, accepts it and sets its commit index to \<open>min 3 1 = 1\<close>, down from 2. Every
  speed is a slider value and every draw is in range.
\<close>

theorem commitIndex_decreases:
  "reachableOps beforeDecrease \<and> reachableOps afterDecrease
   \<and> tick False 5 draws beforeDecrease = Inr afterDecrease
   \<and> nid (nodes beforeDecrease ! 2) = 2 \<and> nid (nodes afterDecrease ! 2) = 2
   \<and> state (nodes beforeDecrease ! 2) = FOLLOWER \<and> state (nodes afterDecrease ! 2) = FOLLOWER
   \<and> commitIndex (nodes beforeDecrease ! 2) = 2 \<and> commitIndex (nodes afterDecrease ! 2) = 1"
proof -
  have "tick False 5 draws beforeDecrease = Inr afterDecrease"
    using run_to_afterDecrease by (simp add: to_afterDecrease_def split: sum.splits)
  moreover have "nid (nodes beforeDecrease ! 2) = 2 \<and> state (nodes beforeDecrease ! 2) = FOLLOWER
      \<and> commitIndex (nodes beforeDecrease ! 2) = 2"
    by (simp add: beforeDecrease_def)
  moreover have "nid (nodes afterDecrease ! 2) = 2 \<and> state (nodes afterDecrease ! 2) = FOLLOWER
      \<and> commitIndex (nodes afterDecrease ! 2) = 1"
    by (simp add: afterDecrease_def)
  ultimately show ?thesis using beforeDecrease_reachable afterDecrease_reachable by simp
qed

end
